theory Spec2Isabelle
  imports Main
begin

section \<open>Strings and POSIX paths\<close>

text \<open>
  The script runs on POSIX paths. The functions of \<^verbatim>\<open>os.path\<close> and \<^verbatim>\<open>str\<close> it calls are
  written out on \<^typ>\<open>string\<close>, following the \<^verbatim>\<open>posixpath\<close> module.
\<close>

definition REPO_DIR :: string where
  "REPO_DIR = ''lnxpcs''"


definition CLIENT_SECTION :: string where
  "CLIENT_SECTION = ''client''"

definition TOKENS_SECTION :: string where
  "TOKENS_SECTION = ''tokens''"

definition ROOT_URL :: string where
  "ROOT_URL = ''https://github.com/jstpcs/''"

text \<open>\<^verbatim>\<open>s.endswith(suffix)\<close>.\<close>

definition endswith :: "string \<Rightarrow> string \<Rightarrow> bool" where
  "endswith s suffix = (length suffix \<le> length s \<and> drop (length s - length suffix) s = suffix)"

text \<open>\<^verbatim>\<open>s.startswith(prefix)\<close>.\<close>

definition startswith :: "string \<Rightarrow> string \<Rightarrow> bool" where
  "startswith s pre = (take (length pre) s = pre)"

text \<open>
  \<^verbatim>\<open>s.split('/')\<close>: the pieces between the separators, empty pieces included, so that the
  empty string splits into one empty piece.
\<close>

fun split_sep :: "string \<Rightarrow> string list" where
  "split_sep [] = [[]]"
| "split_sep (c # cs) =
     (if c = CHR ''/'' then [] # split_sep cs
      else (case split_sep cs of [] \<Rightarrow> [[c]] | p # ps \<Rightarrow> (c # p) # ps))"

text \<open>
  \<^verbatim>\<open>posixpath.join(a, b)\<close>: an absolute \<open>b\<close> replaces \<open>a\<close>; otherwise \<open>b\<close> is appended, after a
  separator unless \<open>a\<close> is empty or already ends with one.
\<close>

definition path_join :: "string \<Rightarrow> string \<Rightarrow> string" where
  "path_join a b =
     (if startswith b ''/'' then b
      else if a = [] \<or> endswith a ''/'' then a @ b
      else a @ ''/'' @ b)"

text \<open>
  \<^verbatim>\<open>s.replace(old, new)\<close>: every occurrence of \<open>old\<close>, found from the left and not
  overlapping, is replaced. With an empty \<open>old\<close>, \<open>new\<close> is put before every character and at
  the end.
\<close>

function str_replace :: "string \<Rightarrow> string \<Rightarrow> string \<Rightarrow> string" where
  "str_replace old new [] = (if old = [] then new else [])"
| "str_replace old new (c # cs) =
     (if old = [] then new @ c # str_replace old new cs
      else if startswith (c # cs) old then new @ str_replace old new (drop (length old) (c # cs))
      else c # str_replace old new cs)"
  by pat_completeness auto
termination
  by (relation "measure (\<lambda>(old, new, s). length s)") auto

text \<open>\<^verbatim>\<open>posixpath.join(*parts)\<close> on a non-empty list of parts.\<close>

definition path_join_list :: "string list \<Rightarrow> string" where
  "path_join_list parts = foldl path_join (hd parts) (tl parts)"


text \<open>
  The component loop of \<^verbatim>\<open>posixpath.normpath\<close> on a path that starts with a separator:
  empty components and \<^verbatim>\<open>.\<close> are skipped, \<^verbatim>\<open>..\<close> removes the component before it (and is
  dropped at the root). The accumulator holds the components kept so far.
\<close>

fun norm_comps :: "string list \<Rightarrow> string list \<Rightarrow> string list" where
  "norm_comps acc [] = acc"
| "norm_comps acc (c # cs) =
     (if c = [] \<or> c = ''.'' then norm_comps acc cs
      else if c = ''..'' then norm_comps (butlast acc) cs
      else norm_comps (acc @ [c]) cs)"

text \<open>
  The components of \<^verbatim>\<open>abspath(p)\<close>, which is all that \<^verbatim>\<open>relpath\<close> uses of it: a relative
  path is joined to the working directory first. The working directory is absolute.
\<close>

definition abspath_comps :: "string \<Rightarrow> string \<Rightarrow> string list" where
  "abspath_comps cwd p =
     norm_comps [] (split_sep (if startswith p ''/'' then p else path_join cwd p))"

text \<open>The length of the common prefix of two component lists (\<^verbatim>\<open>commonprefix\<close>).\<close>

fun common_len :: "string list \<Rightarrow> string list \<Rightarrow> nat" where
  "common_len (x # xs) (y # ys) = (if x = y then Suc (common_len xs ys) else 0)"
| "common_len _ _ = 0"

text \<open>
  \<^verbatim>\<open>posixpath.relpath(path, start)\<close> for a non-empty \<open>path\<close>: one \<^verbatim>\<open>..\<close> for every component
  of \<open>start\<close> after the common prefix, then the rest of \<open>path\<close>; \<^verbatim>\<open>.\<close> when nothing is left.
\<close>

definition relpath :: "string \<Rightarrow> string \<Rightarrow> string \<Rightarrow> string" where
  "relpath cwd path start =
     (let start_list = abspath_comps cwd start;
          path_list = abspath_comps cwd path;
          i = common_len start_list path_list;
          rel_list = replicate (length start_list - i) ''..'' @ drop i path_list
      in if rel_list = [] then ''.'' else path_join_list rel_list)"

section \<open>The directory tree and the image scanner\<close>

text \<open>
  A directory holds the names of its non-directory entries and its subdirectories by name,
  both in the order in which the operating system lists them. Symbolic links are left out.
\<close>

datatype dir = Dir (dir_files: "string list") (dir_subdirs: "(string \<times> dir) list")

text \<open>
  \<^verbatim>\<open>os.walk(top)\<close> on a directory, top-down: the triple of the directory itself, then the
  walk of each subdirectory under its joined path.
\<close>

fun walk_dir :: "string \<Rightarrow> dir \<Rightarrow> (string \<times> string list \<times> string list) list" where
  "walk_dir walk_root (Dir files subs) =
     (walk_root, map fst subs, files) #
     concat (map (\<lambda>(name, d). walk_dir (path_join walk_root name) d) subs)"

text \<open>
  What the script sees of the operating system: the working directory, the directory tree
  found at a path (none when the path is not an existing directory), and \<^verbatim>\<open>realpath\<close>.
\<close>

record os_env =
  cwd :: string
  dir_at :: "string \<Rightarrow> dir option"
  realpath :: "string \<Rightarrow> string"


text \<open>\<^verbatim>\<open>os.walk\<close> yields nothing for a path that is not a directory.\<close>

definition os_walk :: "os_env \<Rightarrow> string \<Rightarrow> (string \<times> string list \<times> string list) list" where
  "os_walk env p = (case dir_at env p of None \<Rightarrow> [] | Some d \<Rightarrow> walk_dir p d)"

text \<open>\<^verbatim>\<open>find_all_images(root_dir)\<close>.\<close>

definition find_all_images :: "os_env \<Rightarrow> string \<Rightarrow> (string \<times> string list) list" where
  "find_all_images env root_dir =
     concat (map (\<lambda>(walk_root, dirs, files).
                    let pngs = filter (\<lambda>file. endswith file ''.png'') files
                    in if pngs \<noteq> [] then [(relpath (cwd env) walk_root root_dir, pngs)] else [])
                 (os_walk env (path_join root_dir REPO_DIR)))"

section \<open>Exceptions, remote objects and the world\<close>

text \<open>
  The exceptions that can end a run. \<^verbatim>\<open>exit(1)\<close> raises \<^verbatim>\<open>SystemExit(1)\<close>. A failure of
  the remote client other than the rate limit is an \<open>ImgurClientError\<close>.
\<close>

datatype exn =
    SystemExit int
  | ImgurClientRateLimitError string
  | ImgurClientError string
  | NoSectionError string
  | NoOptionError string string
  | DuplicateSectionError string
  | EOFError

text \<open>
  An image entry and an album as the client returns them. A title is \<^verbatim>\<open>None\<close> when the
  remote object has none.
\<close>

record image =
  image_title :: "string option"
  image_link :: string

record album =
  album_id :: string
  album_title :: "string option"
  album_deletehash :: string
  album_link :: string
  album_images :: "image list"

record credentials =
  access_token :: string
  refresh_token :: string

text \<open>The \<^verbatim>\<open>ImgurClient\<close> object: what the constructor is given.\<close>

record imgur_client =
  client_id :: string
  client_secret :: string
  client_access :: "string option"
  client_refresh :: "string option"

text \<open>
  \<^verbatim>\<open>ConfigParser\<close>: the default section and the named sections, each a mapping from
  option names to values. Option names are stored in lower case, as the parser does, and
  every name the script looks up is a lower-case literal. Values are taken as they are
  (no interpolation).
\<close>

record config =
  cfg_defaults :: "string \<rightharpoonup> string"
  cfg_sections :: "string \<rightharpoonup> (string \<rightharpoonup> string)"

text \<open>
  The remote calls the script issues, with their arguments: the pin exchange, the account's
  album listing, the fetch of one album, the creation of an album (title, privacy,
  description) and the upload of a file (path, title, description, album).
\<close>

datatype call =
    Authorize string string
  | GetAccountAlbums string
  | GetAlbum string
  | CreateAlbum string string string
  | UploadFromPath string string string string

text \<open>
  The remote service is a parameter: each operation takes the client and the state of the
  service, answers with a value or an exception, and leaves a new state. \<open>api_credits\<close> is
  the text of \<^verbatim>\<open>client.credits\<close>. \<open>api_get_auth_url\<close> only builds a URL. The constructor of
  the client is taken to store its arguments.
\<close>

record 'r imgur_api =
  api_get_auth_url :: "imgur_client \<Rightarrow> string \<Rightarrow> string"
  api_authorize :: "imgur_client \<Rightarrow> string \<Rightarrow> string \<Rightarrow> 'r \<Rightarrow> (exn + credentials) \<times> 'r"
  api_get_account_albums :: "imgur_client \<Rightarrow> string \<Rightarrow> 'r \<Rightarrow> (exn + album list) \<times> 'r"
  api_get_album :: "imgur_client \<Rightarrow> string \<Rightarrow> 'r \<Rightarrow> (exn + album) \<times> 'r"
  api_create_album :: "imgur_client \<Rightarrow> string \<Rightarrow> string \<Rightarrow> string \<Rightarrow> 'r \<Rightarrow> (exn + string) \<times> 'r"
  api_upload_from_path ::
    "imgur_client \<Rightarrow> string \<Rightarrow> string \<Rightarrow> string \<Rightarrow> string \<Rightarrow> 'r \<Rightarrow> (exn + image) \<times> 'r"
  api_credits :: "'r \<Rightarrow> string"

text \<open>
  The world a run acts on: the remote service, the remote calls issued so far (oldest
  first), what was written to standard output, the lines still to be read from standard
  input, and the configuration files on disk by name.
\<close>

record 'r world =
  remote :: 'r
  calls :: "call list"
  stdout :: "string list"
  stdin :: "string list"
  disk :: "string \<rightharpoonup> config"

type_synonym ('a, 'r) prog = "'r world \<Rightarrow> (exn + 'a) \<times> 'r world"

definition return :: "'a \<Rightarrow> ('a, 'r) prog" where
  "return a = (\<lambda>s. (Inr a, s))"


text \<open>Sequencing: an exception of the first part skips the second.\<close>

definition bind_prog :: "('a, 'r) prog \<Rightarrow> ('a \<Rightarrow> ('b, 'r) prog) \<Rightarrow> ('b, 'r) prog" where
  "bind_prog m f = (\<lambda>s. case m s of (Inl e, s') \<Rightarrow> (Inl e, s') | (Inr a, s') \<Rightarrow> f a s')"


definition print :: "string \<Rightarrow> (unit, 'r) prog" where
  "print line = (\<lambda>s. (Inr (), s\<lparr>stdout := stdout s @ [line]\<rparr>))"



text \<open>A remote call is recorded, then answered by the service.\<close>

definition remote_call :: "call \<Rightarrow> ('r \<Rightarrow> (exn + 'a) \<times> 'r) \<Rightarrow> ('a, 'r) prog" where
  "remote_call c f = (\<lambda>s. case f (remote s) of
       (res, r') \<Rightarrow> (res, s\<lparr>remote := r', calls := calls s @ [c]\<rparr>))"



definition client_get_album :: "'r imgur_api \<Rightarrow> imgur_client \<Rightarrow> string \<Rightarrow> (album, 'r) prog" where
  "client_get_album api client aid = remote_call (GetAlbum aid) (api_get_album api client aid)"

definition client_create_album ::
  "'r imgur_api \<Rightarrow> imgur_client \<Rightarrow> string \<Rightarrow> string \<Rightarrow> string \<Rightarrow> (string, 'r) prog" where
  "client_create_album api client title privacy description =
     remote_call (CreateAlbum title privacy description)
       (api_create_album api client title privacy description)"

definition client_upload_from_path ::
  "'r imgur_api \<Rightarrow> imgur_client \<Rightarrow> string \<Rightarrow> string \<Rightarrow> string \<Rightarrow> string \<Rightarrow> (image, 'r) prog" where
  "client_upload_from_path api client path title description album_hash =
     remote_call (UploadFromPath path title description album_hash)
       (api_upload_from_path api client path title description album_hash)"

section \<open>The configuration\<close>

text \<open>\<^verbatim>\<open>section in config\<close>: the default section is always there.\<close>

definition cfg_contains :: "config \<Rightarrow> string \<Rightarrow> bool" where
  "cfg_contains cfg section = (section = ''DEFAULT'' \<or> cfg_sections cfg section \<noteq> None)"








section \<open>The script\<close>


text \<open>
  \<^verbatim>\<open>get_album(client, all_albums, title, album_url)\<close>. The dictionary \<open>all_albums\<close> is keyed by
  album title and changed in place; the model returns it beside the album.
\<close>

definition get_album ::
  "'r imgur_api \<Rightarrow> imgur_client \<Rightarrow> (string option \<rightharpoonup> album) \<Rightarrow> string \<Rightarrow> string \<Rightarrow>
   (album \<times> (string option \<rightharpoonup> album), 'r) prog" where
  "get_album api client all_albums title album_url =
     (case all_albums (Some title) of
        Some a \<Rightarrow> return (a, all_albums)
      | None \<Rightarrow>
          bind_prog (client_create_album api client title ''hidden''
                       (''Album of images from '' @ album_url)) (\<lambda>new_id.
          bind_prog (client_get_album api client new_id) (\<lambda>a.
          return (a, all_albums(Some title \<mapsto> a)))))"

text \<open>\<^verbatim>\<open>get_album_image(album, file_path)\<close>: the first image of that title, if any.\<close>

definition get_album_image :: "album \<Rightarrow> string \<Rightarrow> image option" where
  "get_album_image a file_path =
     (case filter (\<lambda>img. image_title img = Some file_path) (album_images a) of
        [] \<Rightarrow> None
      | img # _ \<Rightarrow> Some img)"

text \<open>The body of the inner loop of \<^verbatim>\<open>main\<close>, for one file of a group.\<close>

definition handle_png ::
  "'r imgur_api \<Rightarrow> imgur_client \<Rightarrow> string \<Rightarrow> string \<Rightarrow> string \<Rightarrow> album \<Rightarrow> string \<Rightarrow> (unit, 'r) prog" where
  "handle_png api client path_to_repo_parent album_imgur_title album_git_url a png =
     (let image_file_path = path_join (path_join path_to_repo_parent album_imgur_title) png;
          image_rel_path = path_join album_imgur_title png;
          image_git_url = album_git_url @ ''/'' @ png
      in bind_prog (print (CHR 0x09 # ''Handling image '' @ image_git_url)) (\<lambda>_.
           case get_album_image a image_rel_path of
             Some album_image \<Rightarrow> return ()
           | None \<Rightarrow>
               bind_prog (client_upload_from_path api client image_file_path image_rel_path
                            (''A mirror of '' @ image_git_url) (album_deletehash a)) (\<lambda>album_image.
               print (CHR 0x09 # CHR 0x09 # ''Uploaded to '' @ image_link album_image))))"

text \<open>The inner loop: the files of a group in order.\<close>

fun handle_pngs ::
  "'r imgur_api \<Rightarrow> imgur_client \<Rightarrow> string \<Rightarrow> string \<Rightarrow> string \<Rightarrow> album \<Rightarrow> string list \<Rightarrow> (unit, 'r) prog" where
  "handle_pngs api client parent title url a [] = return ()"
| "handle_pngs api client parent title url a (png # pngs) =
     bind_prog (handle_png api client parent title url a png) (\<lambda>_.
     handle_pngs api client parent title url a pngs)"

text \<open>The body of the outer loop, for one group.\<close>

definition handle_group ::
  "'r imgur_api \<Rightarrow> imgur_client \<Rightarrow> string \<Rightarrow> (string option \<rightharpoonup> album) \<Rightarrow> string \<times> string list \<Rightarrow>
   (string option \<rightharpoonup> album, 'r) prog" where
  "handle_group api client path_to_repo_parent all_albums grp =
     (case grp of (album_imgur_title, pngs) \<Rightarrow>
        let album_git_url = ROOT_URL @ str_replace REPO_DIR ''lnxpcs/tree/master'' album_imgur_title
        in bind_prog (get_album api client all_albums album_imgur_title album_git_url)
             (\<lambda>(a, all_albums').
           bind_prog (print (''Handling album '' @ album_git_url)) (\<lambda>_.
           bind_prog (print (''Album @ '' @ album_link a)) (\<lambda>_.
           bind_prog (handle_pngs api client path_to_repo_parent album_imgur_title album_git_url a pngs)
             (\<lambda>_.
           return all_albums')))))"

text \<open>The outer loop: the groups in order, each seeing the albums stored by the ones before.\<close>

fun handle_groups ::
  "'r imgur_api \<Rightarrow> imgur_client \<Rightarrow> string \<Rightarrow> (string option \<rightharpoonup> album) \<Rightarrow>
   (string \<times> string list) list \<Rightarrow> (string option \<rightharpoonup> album, 'r) prog" where
  "handle_groups api client parent all_albums [] = return all_albums"
| "handle_groups api client parent all_albums (g # gs) =
     bind_prog (handle_group api client parent all_albums g) (\<lambda>all_albums'.
     handle_groups api client parent all_albums' gs)"

text \<open>
  The \<^verbatim>\<open>try\<close> statement around the outer loop: a rate-limit error is reported with the
  remaining credits and raised again; every other outcome passes through.
\<close>

definition reconcile ::
  "'r imgur_api \<Rightarrow> imgur_client \<Rightarrow> string \<Rightarrow> (string option \<rightharpoonup> album) \<Rightarrow>
   (string \<times> string list) list \<Rightarrow> (string option \<rightharpoonup> album, 'r) prog" where
  "reconcile api client parent all_albums images =
     (\<lambda>s. case handle_groups api client parent all_albums images s of
        (Inl (ImgurClientRateLimitError rle), s') \<Rightarrow>
          (Inl (ImgurClientRateLimitError rle),
           s'\<lparr>stdout := stdout s' @ [''Passed limit '' @ api_credits api (remote s')]\<rparr>)
      | other \<Rightarrow> other)"





section \<open>Notions used in the statements\<close>

text \<open>
  The definitions below are not part of the script. They name what the properties speak
  about (well-formed directory trees, the remote calls a run is expected to make, the
  configuration a run starts from), give a few auxiliary functions that the proofs go
  through, and fix a small directory tree, remote service and configurations on which the
  model is evaluated.
\<close>

text \<open>A name that a directory entry can have.\<close>

definition valid_name :: "string \<Rightarrow> bool" where
  "valid_name n = (n \<noteq> [] \<and> CHR ''/'' \<notin> set n \<and> n \<noteq> ''.'' \<and> n \<noteq> ''..'')"

text \<open>A directory tree as a file system holds it: the subdirectories of a directory have
  distinct names, each a proper entry name.\<close>

fun wf_dir :: "dir \<Rightarrow> bool" where
  "wf_dir (Dir files subs) =
     (distinct (map fst subs) \<and> (\<forall>(n, d) \<in> set subs. valid_name n \<and> wf_dir d))"

text \<open>The directory reached from \<open>d\<close> by going down the subdirectories named in turn.\<close>

fun lookup_dir :: "dir \<Rightarrow> string list \<Rightarrow> dir option" where
  "lookup_dir d [] = Some d"
| "lookup_dir (Dir files subs) (n # ns) =
     (case map_of subs n of None \<Rightarrow> None | Some d \<Rightarrow> lookup_dir d ns)"

text \<open>The absolute, normalised path with the given components; the root for none.\<close>

definition abs_path :: "string list \<Rightarrow> string" where
  "abs_path segs = (if segs = [] then ''/'' else concat (map (\<lambda>s. CHR ''/'' # s) segs))"

text \<open>The walk of a tree with every directory given by the names that lead to it, for the
  proofs about \<open>walk_dir\<close>.\<close>

fun walk_segs :: "dir \<Rightarrow> (string list \<times> string list) list" where
  "walk_segs (Dir files subs) =
     ([], files) # concat (map (\<lambda>(n, d). map (\<lambda>(ps, fs). (n # ps, fs)) (walk_segs d)) subs)"

text \<open>What \<open>find_all_images\<close> appends for one directory of the walk.\<close>

definition group_of :: "string \<Rightarrow> string \<Rightarrow> string \<Rightarrow> string list \<times> string list \<Rightarrow> (string \<times> string list) list" where
  "group_of c base root e =
     (let pngs = filter (\<lambda>file. endswith file ''.png'') (snd e)
      in if pngs \<noteq> [] then [(relpath c (foldl path_join base (fst e)) root, pngs)] else [])"

text \<open>A small tracked directory and the environment that holds it at \<^verbatim>\<open>/home/u/lnxpcs\<close>.\<close>

definition example_tree :: dir where
  "example_tree = Dir [''a.png'', ''notes.txt'']
     [(''foo'', Dir [''b.png'', ''c.png'', ''d.txt''] []), (''docs'', Dir [''x.txt''] [])]"

definition example_env :: os_env where
  "example_env = \<lparr>cwd = ''/'',
     dir_at = (\<lambda>p. if p = ''/home/u/lnxpcs'' \<or> p = ''/home/u/lnxpcs/'' then Some example_tree
                     else None),
     realpath = (\<lambda>p. if p = ''/home/u/lnxpcs/..'' then ''/home/u'' else p)\<rparr>"

text \<open>The kinds of remote call that the properties count.\<close>

definition is_upload :: "call \<Rightarrow> bool" where
  "is_upload c = (case c of UploadFromPath _ _ _ _ \<Rightarrow> True | _ \<Rightarrow> False)"

definition is_create :: "call \<Rightarrow> bool" where
  "is_create c = (case c of CreateAlbum _ _ _ \<Rightarrow> True | _ \<Rightarrow> False)"

text \<open>The album source URL of a title, as the outer loop of \<^verbatim>\<open>main\<close> builds it.\<close>

definition album_git_url :: "string \<Rightarrow> string" where
  "album_git_url title = ROOT_URL @ str_replace REPO_DIR ''lnxpcs/tree/master'' title"

text \<open>The upload call that the inner loop of \<^verbatim>\<open>main\<close> issues for a file \<open>png\<close> of the group
  \<open>title\<close>, whose album is \<open>a\<close>.\<close>

definition upload_call :: "string \<Rightarrow> string \<Rightarrow> album \<Rightarrow> string \<Rightarrow> call" where
  "upload_call parent title a png =
     UploadFromPath (path_join (path_join parent title) png) (path_join title png)
       (''A mirror of '' @ album_git_url title @ ''/'' @ png) (album_deletehash a)"

text \<open>The image list of the album has an entry with exactly this title.\<close>

definition has_title :: "album \<Rightarrow> string \<Rightarrow> bool" where
  "has_title a t = list_ex (\<lambda>img. image_title img = Some t) (album_images a)"

text \<open>The files of a group whose relative path is the title of no image of the album.\<close>

definition missing_pngs :: "album \<Rightarrow> string \<Rightarrow> string list \<Rightarrow> string list" where
  "missing_pngs a title pngs = filter (\<lambda>png. \<not> has_title a (path_join title png)) pngs"

text \<open>The remote calls issued between two states of a run.\<close>

definition new_calls :: "'r world \<Rightarrow> 'r world \<Rightarrow> call list" where
  "new_calls s s' = drop (length (calls s)) (calls s')"

text \<open>The upload calls for the missing files of a group, with the album URL as a parameter.\<close>

definition uploads_for :: "string \<Rightarrow> string \<Rightarrow> string \<Rightarrow> album \<Rightarrow> string list \<Rightarrow> call list" where
  "uploads_for parent t url a pngs =
     map (\<lambda>png. UploadFromPath (path_join (path_join parent t) png) (path_join t png)
                  (''A mirror of '' @ url @ ''/'' @ png) (album_deletehash a))
         (missing_pngs a t pngs)"

text \<open>The creation call that \<open>get_album\<close> issues for a title, as the outer loop calls it.\<close>

definition create_call :: "string \<Rightarrow> call" where
  "create_call title = CreateAlbum title ''hidden'' (''Album of images from '' @ album_git_url title)"

text \<open>The body of the outer loop after \<open>get_album\<close> has returned.\<close>

definition group_rest ::
  "'r imgur_api \<Rightarrow> imgur_client \<Rightarrow> string \<Rightarrow> string \<Rightarrow> string list \<Rightarrow>
   album \<times> (string option \<rightharpoonup> album) \<Rightarrow> (string option \<rightharpoonup> album, 'r) prog" where
  "group_rest api client parent t pngs = (\<lambda>(a, all_albums').
           bind_prog (print (''Handling album '' @ album_git_url t)) (\<lambda>_.
           bind_prog (print (''Album @ '' @ album_link a)) (\<lambda>_.
           bind_prog (handle_pngs api client parent t (album_git_url t) a pngs)
             (\<lambda>_. return all_albums'))))"

text \<open>The upload calls of a whole run, given the album that each group title is mapped to:
  group by group, one call for each missing file.\<close>

definition expected_uploads ::
  "string \<Rightarrow> (string option \<rightharpoonup> album) \<Rightarrow> (string \<times> string list) list \<Rightarrow> call list" where
  "expected_uploads parent m images =
     concat (map (\<lambda>(t, pngs). case m (Some t) of
                    None \<Rightarrow> []
                  | Some a \<Rightarrow> map (upload_call parent t a) (missing_pngs a t pngs)) images)"





text \<open>The configuration after the script has added the tokens section if it was missing.\<close>

definition with_tokens_section :: "config \<Rightarrow> config" where
  "with_tokens_section cfg =
     (if cfg_contains cfg TOKENS_SECTION then cfg
      else cfg\<lparr>cfg_sections := (cfg_sections cfg)(TOKENS_SECTION \<mapsto> Map.empty)\<rparr>)"


text \<open>A small remote service. Its state is the number of credits left: every call but the pin
  exchange costs one, and fails with the rate-limit error when none is left. The account has
  one album, titled \<^verbatim>\<open>lnxpcs/foo\<close>, with one image.\<close>

definition sample_album :: album where
  "sample_album = \<lparr>album_id = ''a1'', album_title = Some ''lnxpcs/foo'', album_deletehash = ''dh1'',
     album_link = ''https://imgur.com/a/a1'',
     album_images = [\<lparr>image_title = Some ''lnxpcs/foo/b.png'', image_link = ''https://i.imgur.com/b.png''\<rparr>]\<rparr>"

definition fresh_album :: "string \<Rightarrow> album" where
  "fresh_album aid = \<lparr>album_id = aid, album_title = None, album_deletehash = ''dh2'',
     album_link = ''https://imgur.com/a/'' @ aid, album_images = []\<rparr>"

definition rate_limited :: exn where
  "rate_limited = ImgurClientRateLimitError ''Rate-limit exceeded!''"

definition sample_api :: "nat imgur_api" where
  "sample_api = \<lparr>
     api_get_auth_url = (\<lambda>client response_type. ''https://api.imgur.com/oauth2/authorize''),
     api_authorize = (\<lambda>client pin grant r.
        (if pin = ''1234'' then Inr \<lparr>access_token = ''acc'', refresh_token = ''ref''\<rparr>
         else Inl (ImgurClientError ''Invalid Pin''), r)),
     api_get_account_albums = (\<lambda>client user r.
        if r = 0 then (Inl rate_limited, 0) else (Inr [sample_album\<lparr>album_images := []\<rparr>], r - 1)),
     api_get_album = (\<lambda>client aid r.
        if r = 0 then (Inl rate_limited, 0)
        else (Inr (if aid = ''a1'' then sample_album else fresh_album aid), r - 1)),
     api_create_album = (\<lambda>client title privacy description r.
        if r = 0 then (Inl rate_limited, 0) else (Inr ''a2'', r - 1)),
     api_upload_from_path = (\<lambda>client path title description album_hash r.
        if r = 0 then (Inl rate_limited, 0)
        else (Inr \<lparr>image_title = Some title, image_link = ''https://i.imgur.com/new.png''\<rparr>, r - 1)),
     api_credits = (\<lambda>r. replicate r CHR ''*'')\<rparr>"

text \<open>A client, the groups of the example tree, the pre-fetched albums and a starting world.\<close>

definition sample_client :: imgur_client where
  "sample_client = \<lparr>client_id = ''cid'', client_secret = ''cs'',
     client_access = Some ''acc'', client_refresh = Some ''ref''\<rparr>"

definition sample_images :: "(string \<times> string list) list" where
  "sample_images = [(''lnxpcs'', [''a.png'']), (''lnxpcs/foo'', [''b.png'', ''c.png''])]"

definition sample_albums :: "string option \<rightharpoonup> album" where
  "sample_albums = [Some ''lnxpcs/foo'' \<mapsto> sample_album]"

definition sample_world :: "nat \<Rightarrow> string list \<Rightarrow> (string \<rightharpoonup> config) \<Rightarrow> nat world" where
  "sample_world credits lines files =
     \<lparr>remote = credits, calls = [], stdout = [], stdin = lines, disk = files\<rparr>"





section \<open>Properties\<close>

lemma walk_dir_segs:
  "map (\<lambda>(w, ds, fs). (w, fs)) (walk_dir t d) =
   map (\<lambda>(ps, fs). (foldl path_join t ps, fs)) (walk_segs d)"
proof (induction d arbitrary: t)
  case (Dir files subs)
  have "\<And>n d'. (n, d') \<in> set subs \<Longrightarrow>
      map (\<lambda>(w, ds, fs). (w, fs)) (walk_dir (path_join t n) d') =
      map (\<lambda>(ps, fs). (foldl path_join t (n # ps), fs)) (walk_segs d')"
    using Dir.IH by (simp) 
  then show ?case
    by (auto simp: map_concat comp_def case_prod_unfold intro!: arg_cong[where f=concat])
qed

lemma concat_map_assoc:
  "distinct (map fst subs) \<Longrightarrow>
   concat (map (\<lambda>(m, d). if m = n then f d else []) subs) =
   (case map_of subs n of None \<Rightarrow> [] | Some d \<Rightarrow> f d)"
proof (induction subs)
  case Nil
  then show ?case by simp
next
  case (Cons a subs)
  obtain m d where a: "a = (m, d)" by (cases a)
  show ?case
  proof (cases "m = n")
    case True
    with Cons.prems a have "map_of subs n = None"
      by (simp add: map_of_eq_None_iff)
    moreover from this have "concat (map (\<lambda>(m, d). if m = n then f d else []) subs) = []"
      using Cons by simp
    ultimately show ?thesis using a True by simp
  next
    case False
    with Cons a show ?thesis by simp
  qed
qed

lemma walk_segs_filter:
  "wf_dir d \<Longrightarrow>
   filter (\<lambda>e. fst e = qs) (walk_segs d) =
   (case lookup_dir d qs of None \<Rightarrow> [] | Some d' \<Rightarrow> [(qs, dir_files d')])"
proof (induction d arbitrary: qs)
  case (Dir files subs)
  show ?case
  proof (cases qs)
    case Nil
    have "filter (\<lambda>e. fst e = []) (concat (map (\<lambda>(n, d). map (\<lambda>(ps, fs). (n # ps, fs)) (walk_segs d)) subs)) = []"
      by (auto simp: filter_empty_conv)
    with Nil show ?thesis by simp
  next
    case (Cons n ns)
    have step: "\<And>m d. (m, d) \<in> set subs \<Longrightarrow>
        filter (\<lambda>e. fst e = n # ns) (map (\<lambda>(ps, fs). (m # ps, fs)) (walk_segs d)) =
        (if m = n then map (\<lambda>(ps, fs). (n # ps, fs))
             (case lookup_dir d ns of None \<Rightarrow> [] | Some d' \<Rightarrow> [(ns, dir_files d')]) else [])"
    proof -
      fix m d assume md: "(m, d) \<in> set subs"
      then have wf: "wf_dir d" using Dir.prems by auto
      have ih: "filter (\<lambda>e. fst e = ns) (walk_segs d) =
          (case lookup_dir d ns of None \<Rightarrow> [] | Some d' \<Rightarrow> [(ns, dir_files d')])"
        using Dir.IH[of "(m, d)" d ns] md wf by simp
      show "filter (\<lambda>e. fst e = n # ns) (map (\<lambda>(ps, fs). (m # ps, fs)) (walk_segs d)) =
        (if m = n then map (\<lambda>(ps, fs). (n # ps, fs))
             (case lookup_dir d ns of None \<Rightarrow> [] | Some d' \<Rightarrow> [(ns, dir_files d')]) else [])"
      proof (cases "m = n")
        case True
        have "filter (\<lambda>e. fst e = n # ns) (map (\<lambda>(ps, fs). (n # ps, fs)) (walk_segs d)) =
              map (\<lambda>(ps, fs). (n # ps, fs)) (filter (\<lambda>e. fst e = ns) (walk_segs d))"
          by (simp add: filter_map comp_def case_prod_unfold)
        with True ih show ?thesis by simp
      next
        case False
        then show ?thesis by (auto simp: filter_empty_conv)
      qed
    qed
    have "filter (\<lambda>e. fst e = n # ns)
            (concat (map (\<lambda>(m, d). map (\<lambda>(ps, fs). (m # ps, fs)) (walk_segs d)) subs)) =
          concat (map (\<lambda>(m, d). if m = n then map (\<lambda>(ps, fs). (n # ps, fs))
             (case lookup_dir d ns of None \<Rightarrow> [] | Some d' \<Rightarrow> [(ns, dir_files d')]) else []) subs)"
      using step by (auto simp: filter_concat comp_def case_prod_unfold intro!: arg_cong[where f=concat])
    also have "\<dots> = (case map_of subs n of None \<Rightarrow> [] | Some d \<Rightarrow> map (\<lambda>(ps, fs). (n # ps, fs))
             (case lookup_dir d ns of None \<Rightarrow> [] | Some d' \<Rightarrow> [(ns, dir_files d')]))"
      using Dir.prems by (simp add: concat_map_assoc)
    finally show ?thesis using Cons by (simp split: option.splits)
  qed
qed

lemma walk_segs_valid:
  "wf_dir d \<Longrightarrow> (ps, fs) \<in> set (walk_segs d) \<Longrightarrow> list_all valid_name ps"
proof (induction d arbitrary: ps fs)
  case (Dir files subs)
  then show ?case by (fastforce)
qed

lemma valid_name_REPO_DIR: "valid_name REPO_DIR"
  by (simp add: valid_name_def REPO_DIR_def)

lemma split_sep_no_sep: "CHR ''/'' \<notin> set s \<Longrightarrow> split_sep s = [s]"
  by (induction s) auto

lemma split_sep_append:
  "CHR ''/'' \<notin> set s \<Longrightarrow> split_sep (s @ CHR ''/'' # t) = s # split_sep t"
  by (induction s) auto

lemma split_sep_segs:
  "list_all valid_name segs \<Longrightarrow>
   split_sep (concat (map (\<lambda>s. CHR ''/'' # s) segs)) = [] # segs \<or> segs = []"
proof (induction segs)
  case Nil
  then show ?case by simp
next
  case (Cons a segs)
  then have a: "CHR ''/'' \<notin> set a" by (simp add: valid_name_def)
  show ?case
  proof (cases segs)
    case Nil
    then show ?thesis using a by (simp add: split_sep_no_sep)
  next
    case (Cons b bs)
    with Cons.IH Cons.prems have "split_sep (concat (map (\<lambda>s. CHR ''/'' # s) segs)) = [] # segs"
      by simp
    then show ?thesis using a Cons by (simp add: split_sep_append)
  qed
qed

lemma norm_comps_valid:
  "list_all valid_name cs \<Longrightarrow> norm_comps acc cs = acc @ cs"
  by (induction cs arbitrary: acc) (auto simp: valid_name_def)

lemma startswith_abs_path: "startswith (abs_path segs) ''/''"
  by (cases segs) (auto simp: startswith_def abs_path_def)

lemma abspath_comps_abs:
  "list_all valid_name segs \<Longrightarrow> abspath_comps c (abs_path segs) = segs"
proof (cases segs)
  case Nil
  then show ?thesis by (simp add: abspath_comps_def startswith_abs_path) (simp add: abs_path_def)
next
  case (Cons a as)
  assume v: "list_all valid_name segs"
  with Cons split_sep_segs[of segs] have "split_sep (abs_path segs) = [] # segs"
    by (simp add: abs_path_def)
  then show ?thesis using v by (simp add: abspath_comps_def startswith_abs_path norm_comps_valid)
qed

lemma path_join_abs:
  "list_all valid_name segs \<Longrightarrow> valid_name n \<Longrightarrow>
   path_join (abs_path segs) n = abs_path (segs @ [n])"
proof (cases segs rule: rev_cases)
  case Nil
  assume "valid_name n"
  then have "\<not> startswith n ''/''" by (cases n) (auto simp: valid_name_def startswith_def)
  then show ?thesis using Nil by (simp add: path_join_def abs_path_def endswith_def)
next
  case (snoc as a)
  assume v: "list_all valid_name segs" and n: "valid_name n"
  from n have ns: "\<not> startswith n ''/''" by (cases n) (auto simp: valid_name_def startswith_def)
  from v snoc have "a \<noteq> [] \<and> CHR ''/'' \<notin> set a" by (simp add: valid_name_def)
  then have "last (abs_path segs) \<noteq> CHR ''/''" using snoc
    by (cases a rule: rev_cases) (auto simp: abs_path_def)
  moreover have "abs_path segs \<noteq> []" using snoc by (simp add: abs_path_def)
  ultimately have "\<not> endswith (abs_path segs) ''/''"
    by (cases "abs_path segs" rule: rev_cases) (auto simp: endswith_def)
  then show ?thesis using ns snoc \<open>abs_path segs \<noteq> []\<close>
    by (simp add: path_join_def abs_path_def)
qed

lemma foldl_path_join_abs:
  "list_all valid_name segs \<Longrightarrow> list_all valid_name ps \<Longrightarrow>
   foldl path_join (abs_path segs) ps = abs_path (segs @ ps)"
  by (induction ps arbitrary: segs) (simp_all add: path_join_abs)

lemma common_len_append: "common_len xs (xs @ ys) = length xs"
  by (induction xs) auto

lemma valid_name_last: "valid_name p \<Longrightarrow> p \<noteq> [] \<and> last p \<noteq> CHR ''/'' \<and> CHR ''/'' \<notin> set p"
  unfolding valid_name_def by (metis last_in_set)

lemma path_join_rel:
  "valid_name n \<Longrightarrow> s \<noteq> [] \<Longrightarrow> last s \<noteq> CHR ''/'' \<Longrightarrow> path_join s n = s @ CHR ''/'' # n"
  by (cases n; cases s rule: rev_cases) (auto simp: path_join_def startswith_def endswith_def valid_name_def)

lemma foldl_path_join_rel:
  "list_all valid_name ps \<Longrightarrow> s \<noteq> [] \<Longrightarrow> last s \<noteq> CHR ''/'' \<Longrightarrow>
   foldl path_join s ps = s @ concat (map (\<lambda>p. CHR ''/'' # p) ps)"
proof (induction ps arbitrary: s)
  case Nil
  then show ?case by simp
next
  case (Cons p ps)
  then have p: "valid_name p" by simp
  then have "p \<noteq> []" "last p \<noteq> CHR ''/''" using valid_name_last by auto
  then have l: "last (s @ CHR ''/'' # p) \<noteq> CHR ''/''" by simp
  show ?case using Cons.IH[of "s @ CHR ''/'' # p"] Cons.prems l p
    by (simp add: path_join_rel)
qed

lemma path_join_list_valid:
  "valid_name x \<Longrightarrow> list_all valid_name xs \<Longrightarrow>
   path_join_list (x # xs) = x @ concat (map (\<lambda>p. CHR ''/'' # p) xs)"
  using valid_name_last[of x] by (simp add: path_join_list_def foldl_path_join_rel)

lemma split_sep_rel:
  "CHR ''/'' \<notin> set x \<Longrightarrow> list_all valid_name xs \<Longrightarrow>
   split_sep (x @ concat (map (\<lambda>p. CHR ''/'' # p) xs)) = x # xs"
proof (induction xs arbitrary: x)
  case Nil
  then show ?case by (simp add: split_sep_no_sep)
next
  case (Cons a xs)
  then have "CHR ''/'' \<notin> set a" by (simp add: valid_name_def)
  with Cons show ?case by (simp add: split_sep_append)
qed

lemma path_join_list_inj:
  assumes "valid_name x" "list_all valid_name xs" "list_all valid_name ys"
    and "path_join_list (x # xs) = path_join_list (x # ys)"
  shows "xs = ys"
proof -
  have x: "CHR ''/'' \<notin> set x" using assms(1) valid_name_last by blast
  have "split_sep (path_join_list (x # xs)) = x # xs"
    using assms(1,2) x by (simp add: path_join_list_valid split_sep_rel)
  moreover have "split_sep (path_join_list (x # ys)) = x # ys"
    using assms(1,3) x by (simp add: path_join_list_valid split_sep_rel)
  ultimately show ?thesis using assms(4) by (metis list.inject)
qed

lemma relpath_walk_root:
  assumes "list_all valid_name segs" "list_all valid_name ps"
  shows "relpath c (foldl path_join (path_join (abs_path segs) REPO_DIR) ps) (abs_path segs) =
         path_join_list (REPO_DIR # ps)"
proof -
  have "foldl path_join (path_join (abs_path segs) REPO_DIR) ps = abs_path (segs @ REPO_DIR # ps)"
    using foldl_path_join_abs[of segs "REPO_DIR # ps"] assms valid_name_REPO_DIR by simp
  moreover have "abspath_comps c (abs_path (segs @ REPO_DIR # ps)) = segs @ REPO_DIR # ps"
    using assms valid_name_REPO_DIR by (simp add: abspath_comps_abs)
  moreover have "abspath_comps c (abs_path segs) = segs"
    using assms by (simp add: abspath_comps_abs)
  ultimately show ?thesis
    by (simp add: relpath_def Let_def common_len_append)
qed

lemma lookup_dir_valid:
  "wf_dir d \<Longrightarrow> lookup_dir d ps = Some d' \<Longrightarrow> list_all valid_name ps \<and> wf_dir d'"
proof (induction d ps rule: lookup_dir.induct)
  case (1 d)
  then show ?case by simp
next
  case (2 files subs n ns)
  from "2.prems"(2) obtain e where e: "map_of subs n = Some e" "lookup_dir e ns = Some d'"
    by (auto split: option.splits)
  then have "(n, e) \<in> set subs" by (simp add: map_of_SomeD)
  with "2.prems"(1) have "valid_name n" "wf_dir e" by auto
  with "2.IH"[OF e(1)] e(2) show ?case by simp
qed

lemma walk_segs_lookup:
  assumes "wf_dir d" "(ps, fs) \<in> set (walk_segs d)"
  shows "\<exists>d'. lookup_dir d ps = Some d' \<and> dir_files d' = fs"
proof -
  from assms(2) have "(ps, fs) \<in> set (filter (\<lambda>e. fst e = ps) (walk_segs d))" by simp
  with walk_segs_filter[OF assms(1), of ps] show ?thesis
    by (auto split: option.splits)
qed

lemma find_all_images_segs:
  assumes "dir_at env (path_join root REPO_DIR) = Some d"
  shows "find_all_images env root =
         concat (map (group_of (cwd env) (path_join root REPO_DIR) root) (walk_segs d))"
proof -
  let ?f = "\<lambda>(w, fs). let pngs = filter (\<lambda>file. endswith file ''.png'') fs
              in if pngs \<noteq> [] then [(relpath (cwd env) w root, pngs)] else []"
  have "find_all_images env root =
        concat (map ?f (map (\<lambda>(w, ds, fs). (w, fs)) (walk_dir (path_join root REPO_DIR) d)))"
    using assms by (simp add: find_all_images_def os_walk_def comp_def case_prod_unfold Let_def cong: if_cong)
  also have "\<dots> = concat (map ?f (map (\<lambda>(ps, fs). (foldl path_join (path_join root REPO_DIR) ps, fs)) (walk_segs d)))"
    by (simp only: walk_dir_segs)
  also have "\<dots> = concat (map (group_of (cwd env) (path_join root REPO_DIR) root) (walk_segs d))"
    by (simp add: comp_def case_prod_unfold group_of_def[abs_def] Let_def cong: if_cong)
  finally show ?thesis .
qed

lemma concat_map_filter_if:
  "concat (map (\<lambda>e. if P e then G e else []) xs) = concat (map G (filter P xs))"
  by (induction xs) auto

text \<open>
  C2. Let the root directory be an absolute, normalised path (as \<^verbatim>\<open>realpath\<close> returns it),
  let the tracked directory under it exist, with subdirectory names that are proper file
  names and distinct within each directory. Then for every directory \<open>d'\<close> reached from the
  tracked directory along the names \<open>ps\<close>, the groups that \<open>find_all_images\<close> returns under
  the path of \<open>d'\<close> relative to the root are: exactly one, holding the names of the files
  of \<open>d'\<close> that end with \<^verbatim>\<open>.png\<close> and no others, in their order, when there is such a file;
  none when there is no such file.
\<close>

theorem find_all_images_groups:
  assumes segs: "list_all valid_name segs"
    and at: "dir_at env (path_join (abs_path segs) REPO_DIR) = Some d"
    and wf: "wf_dir d"
    and look: "lookup_dir d ps = Some d'"
  shows "filter (\<lambda>g. fst g = path_join_list (REPO_DIR # ps)) (find_all_images env (abs_path segs)) =
         (if filter (\<lambda>file. endswith file ''.png'') (dir_files d') = [] then []
          else [(path_join_list (REPO_DIR # ps), filter (\<lambda>file. endswith file ''.png'') (dir_files d'))])"
proof -
  let ?root = "abs_path segs"
  let ?base = "path_join ?root REPO_DIR"
  let ?G = "group_of (cwd env) ?base ?root"
  let ?P = "\<lambda>g. fst g = path_join_list (REPO_DIR # ps)"
  have ps: "list_all valid_name ps" using lookup_dir_valid[OF wf look] by simp
  have each: "\<And>e. e \<in> set (walk_segs d) \<Longrightarrow>
      filter ?P (?G e) = (if fst e = ps then ?G e else [])"
  proof -
    fix e assume e: "e \<in> set (walk_segs d)"
    then have v: "list_all valid_name (fst e)"
      using walk_segs_valid[OF wf, of "fst e" "snd e"] by simp
    have r: "relpath (cwd env) (foldl path_join ?base (fst e)) ?root = path_join_list (REPO_DIR # fst e)"
      using relpath_walk_root[OF segs v] .
    have i: "path_join_list (REPO_DIR # fst e) = path_join_list (REPO_DIR # ps) \<longleftrightarrow> fst e = ps"
      using path_join_list_inj[OF valid_name_REPO_DIR v ps] by auto
    have "filter ?P (?G e) = (if path_join_list (REPO_DIR # fst e) = path_join_list (REPO_DIR # ps) then ?G e else [])"
      unfolding group_of_def Let_def r by simp
    then show "filter ?P (?G e) = (if fst e = ps then ?G e else [])"
      unfolding i .
  qed
  have "filter ?P (find_all_images env ?root) = concat (map (\<lambda>e. filter ?P (?G e)) (walk_segs d))"
    by (simp add: find_all_images_segs[OF at] filter_concat comp_def)
  also have "\<dots> = concat (map (\<lambda>e. if fst e = ps then ?G e else []) (walk_segs d))"
    using each by (auto intro!: arg_cong[where f=concat])
  also have "\<dots> = concat (map ?G (filter (\<lambda>e. fst e = ps) (walk_segs d)))"
    by (rule concat_map_filter_if)
  also have "\<dots> = ?G (ps, dir_files d')"
    using walk_segs_filter[OF wf, of ps] look by simp
  finally show ?thesis
    using relpath_walk_root[OF segs ps] by (simp add: group_of_def Let_def)
qed

lemma find_all_images_only:
  assumes segs: "list_all valid_name segs"
    and at: "dir_at env (path_join (abs_path segs) REPO_DIR) = Some d"
    and wf: "wf_dir d"
    and g: "g \<in> set (find_all_images env (abs_path segs))"
  shows "\<exists>ps d'. lookup_dir d ps = Some d' \<and>
           g = (path_join_list (REPO_DIR # ps), filter (\<lambda>file. endswith file ''.png'') (dir_files d')) \<and>
           snd g \<noteq> []"
proof -
  from g obtain e where e: "e \<in> set (walk_segs d)"
      and ge: "g \<in> set (group_of (cwd env) (path_join (abs_path segs) REPO_DIR) (abs_path segs) e)"
    by (auto simp: find_all_images_segs[OF at])
  obtain qs fs where qf: "e = (qs, fs)" by (cases e)
  from walk_segs_lookup[OF wf] e qf obtain d' where d': "lookup_dir d qs = Some d'" "dir_files d' = fs"
    by blast
  have v: "list_all valid_name qs" using lookup_dir_valid[OF wf d'(1)] by simp
  from ge qf d' show ?thesis
    using relpath_walk_root[OF segs v]
    by (auto simp: group_of_def Let_def split: if_splits)
qed

lemma ex_hyps:
  "list_all valid_name [''home'', ''u'']"
  "dir_at example_env (path_join (abs_path [''home'', ''u'']) REPO_DIR) = Some example_tree"
  "wf_dir example_tree"
  "lookup_dir example_tree [''foo''] = Some (Dir [''b.png'', ''c.png'', ''d.txt''] [])"
  "lookup_dir example_tree [''docs''] = Some (Dir [''x.txt''] [])"
  by (simp_all add: valid_name_def example_env_def example_tree_def abs_path_def path_join_def
      startswith_def endswith_def REPO_DIR_def)

theorem find_all_images_groups_witness:
  "list_all valid_name [''home'', ''u''] \<and>
   dir_at example_env (path_join (abs_path [''home'', ''u'']) REPO_DIR) = Some example_tree \<and>
   wf_dir example_tree \<and>
   lookup_dir example_tree [''foo''] = Some (Dir [''b.png'', ''c.png'', ''d.txt''] []) \<and>
   lookup_dir example_tree [''docs''] = Some (Dir [''x.txt''] []) \<and>
   filter (\<lambda>g. fst g = ''lnxpcs/foo'') (find_all_images example_env ''/home/u'') =
     [(''lnxpcs/foo'', [''b.png'', ''c.png''])] \<and>
   filter (\<lambda>g. fst g = ''lnxpcs/docs'') (find_all_images example_env ''/home/u'') = []"
  using find_all_images_groups[OF ex_hyps(1,2,3,4)] find_all_images_groups[OF ex_hyps(1,2,3,5)] ex_hyps
  by (simp add: path_join_list_def path_join_def startswith_def endswith_def REPO_DIR_def abs_path_def)

lemma find_all_images_example:
  "find_all_images example_env ''/home/u'' = [(''lnxpcs'', [''a.png'']), (''lnxpcs/foo'', [''b.png'', ''c.png''])]"
  by (simp add: find_all_images_def example_env_def example_tree_def os_walk_def path_join_def startswith_def endswith_def REPO_DIR_def relpath_def abspath_comps_def path_join_list_def Let_def)

lemma new_calls_append: "calls s' = calls s @ xs \<Longrightarrow> new_calls s s' = xs"
  by (simp add: new_calls_def)

lemma bind_prog_Inr: "m s = (Inr a, s1) \<Longrightarrow> bind_prog m f s = f a s1"
  by (simp add: bind_prog_def)

lemma bind_prog_Inl: "m s = (Inl e, s1) \<Longrightarrow> bind_prog m f s = (Inl e, s1)"
  by (simp add: bind_prog_def)

lemma bind_prog_cases:
  assumes "bind_prog m f s = (res, s')"
  obtains (fail) e where "m s = (Inl e, s')" "res = Inl e"
        | (ok) a s1 where "m s = (Inr a, s1)" "f a s1 = (res, s')"
  using assms by (auto simp: bind_prog_def split: prod.splits sum.splits)

lemma get_album_image_None: "get_album_image a t = None \<longleftrightarrow> \<not> has_title a t"
proof -
  have "get_album_image a t = None \<longleftrightarrow> filter (\<lambda>img. image_title img = Some t) (album_images a) = []"
    by (simp add: get_album_image_def split: list.splits)
  then show ?thesis by (simp add: has_title_def list_ex_iff filter_empty_conv)
qed

lemma print_run: "print l s = (Inr (), s\<lparr>stdout := stdout s @ [l]\<rparr>)"
  by (simp add: print_def)

lemma remote_call_run:
  "remote_call c f s = (fst (f (remote s)), s\<lparr>remote := snd (f (remote s)), calls := calls s @ [c]\<rparr>)"
  by (simp add: remote_call_def split: prod.splits)

lemma handle_png_present:
  "has_title a (path_join t png) \<Longrightarrow>
   handle_png api client parent t url a png s =
     (Inr (), s\<lparr>stdout := stdout s @ [CHR 0x09 # ''Handling image '' @ url @ ''/'' @ png]\<rparr>)"
  using get_album_image_None[of a "path_join t png"]
  by (auto simp: handle_png_def Let_def bind_prog_def print_def return_def split: option.splits)

lemma handle_png_missing:
  assumes "\<not> has_title a (path_join t png)"
    and "handle_png api client parent t url a png s = (res, s')"
  shows "calls s' = calls s @ [UploadFromPath (path_join (path_join parent t) png) (path_join t png)
                                  (''A mirror of '' @ url @ ''/'' @ png) (album_deletehash a)]"
  using assms get_album_image_None[of a "path_join t png"]
  by (auto simp: handle_png_def Let_def bind_prog_def print_def return_def
      client_upload_from_path_def remote_call_def split: option.splits prod.splits sum.splits)

lemma handle_pngs_trace:
  "handle_pngs api client parent t url a pngs s = (res, s') \<Longrightarrow>
   \<exists>k \<le> length (uploads_for parent t url a pngs).
      calls s' = calls s @ take k (uploads_for parent t url a pngs) \<and>
      (res = Inr () \<longrightarrow> k = length (uploads_for parent t url a pngs))"
proof (induction pngs arbitrary: s)
  case Nil
  then show ?case by (simp add: return_def uploads_for_def missing_pngs_def)
next
  case (Cons png pngs)
  let ?E = "uploads_for parent t url a pngs"
  from Cons.prems have "bind_prog (handle_png api client parent t url a png)
      (\<lambda>_. handle_pngs api client parent t url a pngs) s = (res, s')" by simp
  then show ?case
  proof (cases rule: bind_prog_cases)
    case (fail e)
    show ?thesis
    proof (cases "has_title a (path_join t png)")
      case True
      with fail handle_png_present[OF True, of api client parent url s] show ?thesis by simp
    next
      case False
      from handle_png_missing[OF False fail(1)] fail(2) show ?thesis
        by (intro exI[of _ 1]) (simp add: uploads_for_def missing_pngs_def False)
    qed
  next
    case (ok u s1)
    from Cons.IH[OF ok(2)] obtain k where k: "k \<le> length ?E"
        "calls s' = calls s1 @ take k ?E" "res = Inr () \<longrightarrow> k = length ?E" by blast
    show ?thesis
    proof (cases "has_title a (path_join t png)")
      case True
      with ok handle_png_present[OF True, of api client parent url s] have "calls s1 = calls s" by auto
      with k True show ?thesis
        by (intro exI[of _ k]) (simp add: uploads_for_def missing_pngs_def)
    next
      case False
      from handle_png_missing[OF False ok(1)] k False show ?thesis
        by (intro exI[of _ "Suc k"]) (simp add: uploads_for_def missing_pngs_def)
    qed
  qed
qed

lemma get_album_absent:
  assumes "m (Some t) = None" "get_album api client m t url s = (res, s')"
  shows "(\<exists>e. res = Inl e \<and>
            (calls s' = calls s @ [CreateAlbum t ''hidden'' (''Album of images from '' @ url)] \<or>
             (\<exists>i. calls s' = calls s @ [CreateAlbum t ''hidden'' (''Album of images from '' @ url), GetAlbum i])))
         \<or> (\<exists>a i. res = Inr (a, m(Some t \<mapsto> a)) \<and>
             calls s' = calls s @ [CreateAlbum t ''hidden'' (''Album of images from '' @ url), GetAlbum i])"
  using assms
  by (auto simp: get_album_def bind_prog_def return_def client_create_album_def client_get_album_def
      remote_call_def split: prod.splits sum.splits)

lemma uploads_for_eq:
  "uploads_for parent t (album_git_url t) a pngs = map (upload_call parent t a) (missing_pngs a t pngs)"
  by (simp add: uploads_for_def upload_call_def)

lemma handle_group_unfold:
  "handle_group api client parent m (t, pngs) =
   bind_prog (get_album api client m t (album_git_url t)) (group_rest api client parent t pngs)"
  by (simp add: handle_group_def album_git_url_def Let_def group_rest_def)

lemma group_rest_trace:
  assumes r: "group_rest api client parent t pngs (a, m1) s1 = (res, s')"
  obtains k where "k \<le> length (missing_pngs a t pngs)"
    "calls s' = calls s1 @ take k (map (upload_call parent t a) (missing_pngs a t pngs))"
    "\<And>m2. res = Inr m2 \<Longrightarrow> k = length (missing_pngs a t pngs) \<and> m2 = m1"
proof -
  let ?url = "album_git_url t"
  define s3 where "s3 = s1\<lparr>stdout := stdout s1 @ [''Handling album '' @ ?url] @ [''Album @ '' @ album_link a]\<rparr>"
  have c3: "calls s3 = calls s1" by (simp add: s3_def)
  from r have r3: "bind_prog (handle_pngs api client parent t ?url a pngs) (\<lambda>_. return m1) s3 = (res, s')"
    unfolding group_rest_def s3_def by (simp add: bind_prog_def print_def)
  then show ?thesis
  proof (cases rule: bind_prog_cases)
    case (fail e)
    from handle_pngs_trace[OF fail(1)] obtain k where
      k: "k \<le> length (uploads_for parent t ?url a pngs)"
      "calls s' = calls s3 @ take k (uploads_for parent t ?url a pngs)" by (elim exE conjE)
    show ?thesis
    proof (rule that[of k])
      show "k \<le> length (missing_pngs a t pngs)" using k(1) by (simp add: uploads_for_eq)
      show "calls s' = calls s1 @ take k (map (upload_call parent t a) (missing_pngs a t pngs))"
        using k(2) c3 by (simp add: uploads_for_eq)
      show "\<And>m2. res = Inr m2 \<Longrightarrow> k = length (missing_pngs a t pngs) \<and> m2 = m1"
        using fail(2) by simp
    qed
  next
    case (ok u s4)
    from ok(2) have res: "res = Inr m1" "s4 = s'" by (simp_all add: return_def)
    from handle_pngs_trace[OF ok(1)] obtain k where
      k: "k \<le> length (uploads_for parent t ?url a pngs)"
      "calls s4 = calls s3 @ take k (uploads_for parent t ?url a pngs)"
      "Inr u = (Inr () :: exn + unit) \<longrightarrow> k = length (uploads_for parent t ?url a pngs)" by (elim exE conjE)
    show ?thesis
    proof (rule that[of k])
      show "k \<le> length (missing_pngs a t pngs)" using k(1) by (simp add: uploads_for_eq)
      show "calls s' = calls s1 @ take k (map (upload_call parent t a) (missing_pngs a t pngs))"
        using k(2) c3 res(2) by (simp add: uploads_for_eq)
      show "\<And>m2. res = Inr m2 \<Longrightarrow> k = length (missing_pngs a t pngs) \<and> m2 = m1"
        using k(3) res(1) by (simp add: uploads_for_eq)
    qed
  qed
qed

lemma get_album_present:
  "m (Some t) = Some a \<Longrightarrow> get_album api client m t url s = (Inr (a, m), s)"
  by (simp add: get_album_def return_def)

lemma get_album_absent_create:
  assumes "m (Some t) = None" "get_album api client m t (album_git_url t) s = (res, s')"
  shows "(\<exists>e. res = Inl e \<and>
            (calls s' = calls s @ [create_call t] \<or>
             (\<exists>i. calls s' = calls s @ [create_call t, GetAlbum i])))
         \<or> (\<exists>a i. res = Inr (a, m(Some t \<mapsto> a)) \<and>
             calls s' = calls s @ [create_call t, GetAlbum i])"
  using get_album_absent[OF assms] unfolding create_call_def .

lemma handle_group_trace:
  assumes "handle_group api client parent m (t, pngs) s = (res, s')"
  obtains pre a k where
    "calls s' = calls s @ pre @ take k (map (upload_call parent t a) (missing_pngs a t pngs))"
    "k \<le> length (missing_pngs a t pngs)"
    "m (Some t) \<noteq> None \<Longrightarrow> pre = []"
    "m (Some t) = None \<Longrightarrow> pre = [create_call t] \<or> (\<exists>i. pre = [create_call t, GetAlbum i])"
    "\<And>m1. res = Inr m1 \<Longrightarrow> k = length (missing_pngs a t pngs) \<and> m1 (Some t) = Some a \<and>
                   m1 = (if m (Some t) = None then m(Some t \<mapsto> a) else m)"
proof -
  let ?E = "\<lambda>a. map (upload_call parent t a) (missing_pngs a t pngs)"
  from assms have run: "bind_prog (get_album api client m t (album_git_url t))
      (group_rest api client parent t pngs) s = (res, s')"
    by (simp only: handle_group_unfold)
  show ?thesis
  proof (cases "m (Some t)")
    case (Some a)
    have "get_album api client m t (album_git_url t) s = (Inr (a, m), s)"
      using Some by (rule get_album_present)
    with run have gr: "group_rest api client parent t pngs (a, m) s = (res, s')"
      by (simp add: bind_prog_Inr)
    show ?thesis
    proof (rule group_rest_trace[OF gr])
    fix k assume k: "k \<le> length (missing_pngs a t pngs)"
      "calls s' = calls s @ take k (?E a)"
      "\<And>m2. res = Inr m2 \<Longrightarrow> k = length (missing_pngs a t pngs) \<and> m2 = m"
    show ?thesis
    proof (rule that[of "[]" k a])
      show "calls s' = calls s @ [] @ take k (?E a)" using k(2) by simp
      show "k \<le> length (missing_pngs a t pngs)" by (rule k(1))
      show "[] = ([]::call list)" by simp
      show "m (Some t) = None \<Longrightarrow> [] = [create_call t] \<or> (\<exists>i. [] = [create_call t, GetAlbum i])"
        using Some by simp
      show "\<And>m1. res = Inr m1 \<Longrightarrow> k = length (missing_pngs a t pngs) \<and> m1 (Some t) = Some a \<and>
                   m1 = (if m (Some t) = None then m(Some t \<mapsto> a) else m)"
        using k(3) Some by simp
    qed
    qed
  next
    case None
    from run show ?thesis
    proof (cases rule: bind_prog_cases)
      case (fail e)
      from get_album_absent_create[OF None fail(1)]
      have "calls s' = calls s @ [create_call t] \<or> (\<exists>i. calls s' = calls s @ [create_call t, GetAlbum i])"
        by auto
      then obtain pre where pre: "calls s' = calls s @ pre"
          "pre = [create_call t] \<or> (\<exists>i. pre = [create_call t, GetAlbum i])" by auto
      let ?a0 = "\<lparr>album_id = [], album_title = None, album_deletehash = [],
              album_link = [], album_images = []\<rparr>"
      show ?thesis
      proof (rule that[of pre 0 ?a0])
        show "calls s' = calls s @ pre @ take 0 (?E ?a0)" using pre(1) by simp
        show "0 \<le> length (missing_pngs ?a0 t pngs)" by simp
        show "m (Some t) \<noteq> None \<Longrightarrow> pre = []" using None by simp
        show "pre = [create_call t] \<or> (\<exists>i. pre = [create_call t, GetAlbum i])" by (rule pre(2))
        show "\<And>m1. res = Inr m1 \<Longrightarrow> 0 = length (missing_pngs ?a0 t pngs) \<and> m1 (Some t) = Some ?a0 \<and>
                   m1 = (if m (Some t) = None then m(Some t \<mapsto> ?a0) else m)"
          using fail(2) by simp
      qed
    next
      case (ok am s1)
      obtain a m1 where am: "am = (a, m1)" by (cases am)
      from get_album_absent_create[OF None ok(1)] am obtain i where
        i: "m1 = m(Some t \<mapsto> a)" "calls s1 = calls s @ [create_call t, GetAlbum i]"
        by auto
      from ok(2) am have gr: "group_rest api client parent t pngs (a, m1) s1 = (res, s')" by simp
      show ?thesis
      proof (rule group_rest_trace[OF gr])
      fix k assume k:
        "k \<le> length (missing_pngs a t pngs)" "calls s' = calls s1 @ take k (?E a)"
        "\<And>m2. res = Inr m2 \<Longrightarrow> k = length (missing_pngs a t pngs) \<and> m2 = m1"
      show ?thesis
      proof (rule that[of "[create_call t, GetAlbum i]" k a])
        show "calls s' = calls s @ [create_call t, GetAlbum i] @ take k (?E a)"
          using k(2) i(2) by simp
        show "k \<le> length (missing_pngs a t pngs)" by (rule k(1))
        show "m (Some t) \<noteq> None \<Longrightarrow> [create_call t, GetAlbum i] = []" using None by simp
        show "[create_call t, GetAlbum i] = [create_call t] \<or>
              (\<exists>ia. [create_call t, GetAlbum i] = [create_call t, GetAlbum ia])" by simp
        show "\<And>m2. res = Inr m2 \<Longrightarrow> k = length (missing_pngs a t pngs) \<and> m2 (Some t) = Some a \<and>
                   m2 = (if m (Some t) = None then m(Some t \<mapsto> a) else m)"
          using k(3) i(1) None by simp
      qed
      qed
    qed
  qed
qed

lemma is_upload_simps [simp]:
  "is_upload (upload_call parent t a png)" "\<not> is_upload (create_call t)" "\<not> is_upload (GetAlbum i)"
  by (simp_all add: is_upload_def upload_call_def create_call_def)

lemma is_create_simps [simp]:
  "\<not> is_create (upload_call parent t a png)" "is_create (create_call t)" "\<not> is_create (GetAlbum i)"
  by (simp_all add: is_create_def upload_call_def create_call_def)

lemma filter_upload_take [simp]:
  "filter is_upload (take k (map (upload_call parent t a) xs)) = take k (map (upload_call parent t a) xs)"
  by (rule filter_True) (auto dest!: in_set_takeD)

lemma filter_create_take [simp]:
  "filter is_create (take k (map (upload_call parent t a) xs)) = []"
  by (auto simp: filter_empty_conv dest!: in_set_takeD)

lemma handle_groups_Cons_cases:
  assumes "handle_groups api client parent m ((t, pngs) # gs) s = (res, s')"
  obtains (fail) e where "handle_group api client parent m (t, pngs) s = (Inl e, s')" "res = Inl e"
        | (ok) m1 s1 where "handle_group api client parent m (t, pngs) s = (Inr m1, s1)"
            "handle_groups api client parent m1 gs s1 = (res, s')"
proof -
  from assms have "bind_prog (handle_group api client parent m (t, pngs))
      (\<lambda>all_albums'. handle_groups api client parent all_albums' gs) s = (res, s')" by simp
  then show ?thesis
    by (cases rule: bind_prog_cases) (rule fail, assumption+, rule ok, assumption+)
qed

lemma handle_group_success:
  assumes "handle_group api client parent m (t, pngs) s = (Inr m1, s1)"
  obtains pre a where
    "calls s1 = calls s @ pre @ map (upload_call parent t a) (missing_pngs a t pngs)"
    "filter is_upload pre = []"
    "m1 (Some t) = Some a" "m \<subseteq>\<^sub>m m1"
proof (rule handle_group_trace[OF assms])
  fix pre a k
  assume h: "calls s1 = calls s @ pre @ take k (map (upload_call parent t a) (missing_pngs a t pngs))"
    "k \<le> length (missing_pngs a t pngs)"
    "m (Some t) \<noteq> None \<Longrightarrow> pre = []"
    "m (Some t) = None \<Longrightarrow> pre = [create_call t] \<or> (\<exists>i. pre = [create_call t, GetAlbum i])"
    "\<And>m2. Inr m1 = (Inr m2 :: exn + (string option \<rightharpoonup> album)) \<Longrightarrow>
        k = length (missing_pngs a t pngs) \<and> m2 (Some t) = Some a \<and>
        m2 = (if m (Some t) = None then m(Some t \<mapsto> a) else m)"
  note x = h(5)[OF refl]
  have k: "k = length (missing_pngs a t pngs)" using x by (rule conjunct1)
  have a: "m1 (Some t) = Some a" using x by (elim conjE)
  have m1: "m1 = (if m (Some t) = None then m(Some t \<mapsto> a) else m)" using x by (elim conjE)
  have fp: "filter is_upload pre = []"
  proof (cases "m (Some t)")
    case None
    with h(4) show ?thesis by auto
  next
    case (Some b)
    with h(3) show ?thesis by simp
  qed
  have le: "m \<subseteq>\<^sub>m m1"
  proof (cases "m (Some t)")
    case None
    have "m \<subseteq>\<^sub>m m(Some t \<mapsto> a)" using None by (auto simp: map_le_def)
    then show ?thesis using m1 None by simp
  next
    case (Some b)
    then show ?thesis using m1 by simp
  qed
  show thesis
  proof (rule that[of pre a])
    show "calls s1 = calls s @ pre @ map (upload_call parent t a) (missing_pngs a t pngs)"
      using h(1) k by simp
  qed (rule fp, rule a, rule le)
qed

lemma handle_groups_uploads:
  "handle_groups api client parent m images s = (Inr m', s') \<Longrightarrow>
   m \<subseteq>\<^sub>m m' \<and> (\<exists>new. calls s' = calls s @ new \<and> filter is_upload new = expected_uploads parent m' images)"
proof (induction images arbitrary: m s)
  case Nil
  then show ?case by (simp add: return_def expected_uploads_def)
next
  case (Cons g gs)
  obtain t pngs where g: "g = (t, pngs)" by (cases g)
  from Cons.prems g have run: "handle_groups api client parent m ((t, pngs) # gs) s = (Inr m', s')"
    by simp
  then show ?case
  proof (cases rule: handle_groups_Cons_cases)
    case (fail e)
    then show ?thesis by simp
  next
    case (ok m1 s1)
    from Cons.IH[OF ok(2)] obtain new2 where
      ih: "m1 \<subseteq>\<^sub>m m'" "calls s' = calls s1 @ new2" "filter is_upload new2 = expected_uploads parent m' gs"
      by (elim conjE exE)
    show ?thesis
    proof (rule handle_group_success[OF ok(1)])
      fix pre a
      assume h: "calls s1 = calls s @ pre @ map (upload_call parent t a) (missing_pngs a t pngs)"
        "filter is_upload pre = []" "m1 (Some t) = Some a" "m \<subseteq>\<^sub>m m1"
      have a': "m' (Some t) = Some a"
        using ih(1) h(3) by (auto simp: map_le_def dom_def)
      have e: "expected_uploads parent m' (g # gs) =
          map (upload_call parent t a) (missing_pngs a t pngs) @ expected_uploads parent m' gs"
        using a' g by (simp add: expected_uploads_def)
      let ?new = "pre @ map (upload_call parent t a) (missing_pngs a t pngs) @ new2"
      have c: "calls s' = calls s @ ?new" using ih(2) h(1) by simp
      have f: "filter is_upload ?new = expected_uploads parent m' (g # gs)"
        using h(2) ih(3) e filter_upload_take[of "length (missing_pngs a t pngs)" parent t a "missing_pngs a t pngs"]
        by simp
      have le: "m \<subseteq>\<^sub>m m'" using h(4) ih(1) by (rule map_le_trans)
      from le c f show ?thesis by blast
    qed
  qed
qed

lemma handle_group_any:
  assumes "handle_group api client parent m (t, pngs) s = (res, s')"
  obtains new where "calls s' = calls s @ new"
    "filter is_create new = (if m (Some t) = None then [create_call t] else [])"
    "\<And>c. c \<in> set new \<Longrightarrow> is_upload c \<Longrightarrow> \<exists>png a. png \<in> set pngs \<and> c = upload_call parent t a png"
    "\<And>m1. res = Inr m1 \<Longrightarrow>
        m1 (Some t) \<noteq> None \<and> (\<forall>t'. m1 (Some t') = None \<longleftrightarrow> m (Some t') = None \<and> t' \<noteq> t)"
proof (rule handle_group_trace[OF assms])
  fix pre a k
  let ?E = "map (upload_call parent t a) (missing_pngs a t pngs)"
  assume h: "calls s' = calls s @ pre @ take k ?E"
    "k \<le> length (missing_pngs a t pngs)"
    "m (Some t) \<noteq> None \<Longrightarrow> pre = []"
    "m (Some t) = None \<Longrightarrow> pre = [create_call t] \<or> (\<exists>i. pre = [create_call t, GetAlbum i])"
    "\<And>m1. res = Inr m1 \<Longrightarrow>
        k = length (missing_pngs a t pngs) \<and> m1 (Some t) = Some a \<and>
        m1 = (if m (Some t) = None then m(Some t \<mapsto> a) else m)"
  have pre_create: "filter is_create pre = (if m (Some t) = None then [create_call t] else [])"
  proof (cases "m (Some t)")
    case None
    with h(4) show ?thesis by auto
  next
    case (Some b)
    with h(3) show ?thesis by simp
  qed
  have pre_upload: "\<And>c. c \<in> set pre \<Longrightarrow> \<not> is_upload c"
  proof (cases "m (Some t)")
    case None
    fix c assume "c \<in> set pre"
    with h(4)[OF None] show "\<not> is_upload c" by auto
  next
    case (Some b)
    fix c assume "c \<in> set pre"
    with h(3) Some show "\<not> is_upload c" by simp
  qed
  show thesis
  proof (rule that[of "pre @ take k ?E"])
    show "calls s' = calls s @ pre @ take k ?E" by (rule h(1))
    show "filter is_create (pre @ take k ?E) = (if m (Some t) = None then [create_call t] else [])"
      using pre_create by simp
    show "\<exists>png a. png \<in> set pngs \<and> c = upload_call parent t a png"
      if c: "c \<in> set (pre @ take k ?E)" "is_upload c" for c
    proof -
      from c pre_upload have "c \<in> set (take k ?E)" by auto
      then have "c \<in> set ?E" by (rule in_set_takeD)
      then show ?thesis by (auto simp: missing_pngs_def)
    qed
    show "m1 (Some t) \<noteq> None \<and> (\<forall>t'. m1 (Some t') = None \<longleftrightarrow> m (Some t') = None \<and> t' \<noteq> t)"
      if r: "res = Inr m1" for m1
    proof -
      note x = h(5)[OF r]
      have a: "m1 (Some t) = Some a" using x by (elim conjE)
      have m1: "m1 = (if m (Some t) = None then m(Some t \<mapsto> a) else m)" using x by (elim conjE)
      show ?thesis
      proof (cases "m (Some t)")
        case None
        with m1 have "m1 = m(Some t \<mapsto> a)" by simp
        then show ?thesis by auto
      next
        case (Some b)
        with m1 have "m1 = m" by simp
        with Some show ?thesis by auto
      qed
    qed
  qed
qed

lemma handle_groups_any:
  "handle_groups api client parent m images s = (res, s') \<Longrightarrow>
   \<exists>new ts. calls s' = calls s @ new \<and> filter is_create new = map create_call ts \<and> distinct ts \<and>
     set ts \<subseteq> {t \<in> fst ` set images. m (Some t) = None} \<and>
     ((\<exists>m'. res = Inr m') \<longrightarrow> set ts = {t \<in> fst ` set images. m (Some t) = None}) \<and>
     (\<forall>c \<in> set new. is_upload c \<longrightarrow>
        (\<exists>t pngs png a. (t, pngs) \<in> set images \<and> png \<in> set pngs \<and> c = upload_call parent t a png))"
proof (induction images arbitrary: m s)
  case Nil
  then have "calls s' = calls s @ []" by (simp add: return_def)
  then show ?case by (intro exI[of _ "[]"]) simp
next
  case (Cons g gs)
  obtain t pngs where g: "g = (t, pngs)" by (cases g)
  let ?ts1 = "if m (Some t) = None then [t] else []"
  from Cons.prems g have run: "handle_groups api client parent m ((t, pngs) # gs) s = (res, s')"
    by simp
  then show ?case
  proof (cases rule: handle_groups_Cons_cases)
    case (fail e)
    show ?thesis
    proof (rule handle_group_any[OF fail(1)])
      fix new
      assume h: "calls s' = calls s @ new"
        "filter is_create new = (if m (Some t) = None then [create_call t] else [])"
        "\<And>c. c \<in> set new \<Longrightarrow> is_upload c \<Longrightarrow> \<exists>png a. png \<in> set pngs \<and> c = upload_call parent t a png"
      have 1: "filter is_create new = map create_call ?ts1" using h(2) by simp
      have 2: "distinct ?ts1" by simp
      have 3: "set ?ts1 \<subseteq> {t' \<in> fst ` set (g # gs). m (Some t') = None}" using g by auto
      have 4: "(\<exists>m'. res = Inr m') \<longrightarrow> set ?ts1 = {t' \<in> fst ` set (g # gs). m (Some t') = None}"
        using fail(2) by simp
      have 5: "\<forall>c \<in> set new. is_upload c \<longrightarrow>
        (\<exists>t pngs png a. (t, pngs) \<in> set (g # gs) \<and> png \<in> set pngs \<and> c = upload_call parent t a png)"
      proof (intro ballI impI)
        fix c assume "c \<in> set new" "is_upload c"
        from h(3)[OF this] obtain png a where "png \<in> set pngs" "c = upload_call parent t a png" by auto
        then show "\<exists>t pngs png a. (t, pngs) \<in> set (g # gs) \<and> png \<in> set pngs \<and> c = upload_call parent t a png"
          using g by (intro exI[of _ t] exI[of _ pngs] exI[of _ png] exI[of _ a]) simp
      qed
      show ?thesis
        apply (rule exI[of _ new], rule exI[of _ ?ts1], intro conjI)
        apply (rule h(1), rule 1, rule 2, rule 3, rule 4, rule 5)
        done
    qed
  next
    case (ok m1 s1)
    from Cons.IH[OF ok(2)] obtain new2 ts2 where ih:
      "calls s' = calls s1 @ new2" "filter is_create new2 = map create_call ts2" "distinct ts2"
      "set ts2 \<subseteq> {t \<in> fst ` set gs. m1 (Some t) = None}"
      "(\<exists>m'. res = Inr m') \<longrightarrow> set ts2 = {t \<in> fst ` set gs. m1 (Some t) = None}"
      "\<forall>c \<in> set new2. is_upload c \<longrightarrow>
        (\<exists>t pngs png a. (t, pngs) \<in> set gs \<and> png \<in> set pngs \<and> c = upload_call parent t a png)"
      by (elim exE conjE)
    show ?thesis
    proof (rule handle_group_any[OF ok(1)])
      fix new
      assume h: "calls s1 = calls s @ new"
        "filter is_create new = (if m (Some t) = None then [create_call t] else [])"
        "\<And>c. c \<in> set new \<Longrightarrow> is_upload c \<Longrightarrow> \<exists>png a. png \<in> set pngs \<and> c = upload_call parent t a png"
        "\<And>m2. Inr m1 = (Inr m2 :: exn + (string option \<rightharpoonup> album)) \<Longrightarrow>
           m2 (Some t) \<noteq> None \<and> (\<forall>t'. m2 (Some t') = None \<longleftrightarrow> m (Some t') = None \<and> t' \<noteq> t)"
      from h(4)[OF refl] have m1t: "m1 (Some t) \<noteq> None"
        and m1: "\<And>t'. m1 (Some t') = None \<longleftrightarrow> m (Some t') = None \<and> t' \<noteq> t" by simp_all
      have 0: "calls s' = calls s @ (new @ new2)" using ih(1) h(1) by simp
      have 1: "filter is_create (new @ new2) = map create_call (?ts1 @ ts2)" using h(2) ih(2) by simp
      have nt: "t \<notin> set ts2" using ih(4) m1t by auto
      have 2: "distinct (?ts1 @ ts2)" using ih(3) nt by auto
      have s2: "{t' \<in> fst ` set gs. m1 (Some t') = None} = {t' \<in> fst ` set gs. m (Some t') = None} - {t}"
        using m1 by auto
      have s1: "set ?ts1 \<union> ({t' \<in> fst ` set gs. m (Some t') = None} - {t}) =
                {t' \<in> fst ` set (g # gs). m (Some t') = None}"
        using g by auto
      have 3: "set (?ts1 @ ts2) \<subseteq> {t' \<in> fst ` set (g # gs). m (Some t') = None}"
      proof -
        have "set (?ts1 @ ts2) \<subseteq> set ?ts1 \<union> ({t' \<in> fst ` set gs. m (Some t') = None} - {t})"
          using ih(4) unfolding s2 by auto
        then show ?thesis unfolding s1 .
      qed
      have 4: "(\<exists>m'. res = Inr m') \<longrightarrow> set (?ts1 @ ts2) = {t' \<in> fst ` set (g # gs). m (Some t') = None}"
      proof
        assume "\<exists>m'. res = Inr m'"
        with ih(5) have "set ts2 = {t' \<in> fst ` set gs. m (Some t') = None} - {t}" unfolding s2 by simp
        then have "set (?ts1 @ ts2) = set ?ts1 \<union> ({t' \<in> fst ` set gs. m (Some t') = None} - {t})"
          by simp
        then show "set (?ts1 @ ts2) = {t' \<in> fst ` set (g # gs). m (Some t') = None}" unfolding s1 .
      qed
      have 5: "\<forall>c \<in> set (new @ new2). is_upload c \<longrightarrow>
        (\<exists>t pngs png a. (t, pngs) \<in> set (g # gs) \<and> png \<in> set pngs \<and> c = upload_call parent t a png)"
      proof (intro ballI impI)
        fix c assume c: "c \<in> set (new @ new2)" "is_upload c"
        show "\<exists>t pngs png a. (t, pngs) \<in> set (g # gs) \<and> png \<in> set pngs \<and> c = upload_call parent t a png"
        proof (cases "c \<in> set new")
          case True
          from h(3)[OF True c(2)] obtain png a where "png \<in> set pngs" "c = upload_call parent t a png" by auto
          then show ?thesis
            using g by (intro exI[of _ t] exI[of _ pngs] exI[of _ png] exI[of _ a]) simp
        next
          case False
          with c have "c \<in> set new2" by simp
          with ih(6) c(2) have "\<exists>t pngs png a. (t, pngs) \<in> set gs \<and> png \<in> set pngs \<and> c = upload_call parent t a png"
            by simp
          then obtain t' pngs' png a where
            "(t', pngs') \<in> set gs" "png \<in> set pngs'" "c = upload_call parent t' a png" by (elim exE conjE)
          then show ?thesis
            by (intro exI[of _ t'] exI[of _ pngs'] exI[of _ png] exI[of _ a]) simp
        qed
      qed
      show ?thesis
        apply (rule exI[of _ "new @ new2"], rule exI[of _ "?ts1 @ ts2"], intro conjI)
        apply (rule 0, rule 1, rule 2, rule 3, rule 4, rule 5)
        done
    qed
  qed
qed

lemma reconcile_rate_limit:
  assumes "handle_groups api client parent m images s = (Inl (ImgurClientRateLimitError rle), s1)"
  shows "reconcile api client parent m images s =
     (Inl (ImgurClientRateLimitError rle),
      s1\<lparr>stdout := stdout s1 @ [''Passed limit '' @ api_credits api (remote s1)]\<rparr>)"
  using assms by (simp add: reconcile_def)

lemma reconcile_Inr:
  "reconcile api client parent m images s = (Inr m', s') \<longleftrightarrow>
   handle_groups api client parent m images s = (Inr m', s')"
  by (auto simp: reconcile_def split: prod.splits sum.splits exn.splits)

lemma reconcile_calls:
  "calls (snd (reconcile api client parent m images s)) =
   calls (snd (handle_groups api client parent m images s))"
  by (auto simp: reconcile_def split: prod.splits sum.splits exn.splits)

lemma reconcile_fst_Inr:
  "(\<exists>m'. fst (reconcile api client parent m images s) = Inr m') \<longleftrightarrow>
   (\<exists>m'. fst (handle_groups api client parent m images s) = Inr m')"
  by (auto simp: reconcile_def split: prod.splits sum.splits exn.splits)





lemma sections_neq [simp]:
  "CLIENT_SECTION \<noteq> []" "CLIENT_SECTION \<noteq> ''DEFAULT''" "TOKENS_SECTION \<noteq> []"
  "TOKENS_SECTION \<noteq> ''DEFAULT''" "CLIENT_SECTION \<noteq> TOKENS_SECTION" "TOKENS_SECTION \<noteq> CLIENT_SECTION"
  by (simp_all add: CLIENT_SECTION_def TOKENS_SECTION_def)


lemma cfg_contains_tokens: "cfg_contains cfg TOKENS_SECTION \<longleftrightarrow> cfg_sections cfg TOKENS_SECTION \<noteq> None"
  by (simp add: cfg_contains_def)

lemma with_tokens_section_has:
  "\<exists>sect. cfg_sections (with_tokens_section cfg) TOKENS_SECTION = Some sect"
  by (auto simp: with_tokens_section_def cfg_contains_tokens)







lemmas eval_defs = handle_group_def handle_png_def get_album_def get_album_image_def
  bind_prog_def return_def print_def Let_def remote_call_def
  client_create_album_def client_get_album_def client_upload_from_path_def
  sample_api_def sample_client_def sample_images_def sample_albums_def sample_world_def
  sample_album_def fresh_album_def rate_limited_def
  path_join_def startswith_def endswith_def ROOT_URL_def REPO_DIR_def

lemma sample_run_calls:
  "calls (snd (handle_groups sample_api sample_client ''/home/u'' sample_albums sample_images
                 (sample_world 10 [] Map.empty))) =
   [CreateAlbum ''lnxpcs'' ''hidden'' ''Album of images from https://github.com/jstpcs/lnxpcs/tree/master'',
    GetAlbum ''a2'',
    UploadFromPath ''/home/u/lnxpcs/a.png'' ''lnxpcs/a.png''
      ''A mirror of https://github.com/jstpcs/lnxpcs/tree/master/a.png'' ''dh2'',
    UploadFromPath ''/home/u/lnxpcs/foo/c.png'' ''lnxpcs/foo/c.png''
      ''A mirror of https://github.com/jstpcs/lnxpcs/tree/master/foo/c.png'' ''dh1'']"
  by (simp add: eval_defs)

lemma sample_run_fst:
  "fst (handle_groups sample_api sample_client ''/home/u'' sample_albums sample_images
                 (sample_world 10 [] Map.empty)) =
   Inr (sample_albums(Some ''lnxpcs'' \<mapsto> fresh_album ''a2''))"
  by (simp add: eval_defs)

lemma sample_run_limited:
  "fst (handle_groups sample_api sample_client ''/home/u'' sample_albums sample_images
                 (sample_world 3 [] Map.empty)) = Inl rate_limited"
  by (simp add: eval_defs)

lemma new_calls_sample [simp]: "new_calls (sample_world c l f) s' = calls s'"
  by (simp add: new_calls_def sample_world_def)

lemma sample_reconcile_fst:
  "fst (reconcile sample_api sample_client ''/home/u'' sample_albums sample_images
                 (sample_world 10 [] Map.empty)) =
   Inr (sample_albums(Some ''lnxpcs'' \<mapsto> fresh_album ''a2''))"
  using sample_run_fst
  by (cases "handle_groups sample_api sample_client ''/home/u'' sample_albums sample_images
                 (sample_world 10 [] Map.empty)") (simp add: reconcile_def)

lemma sample_reconcile_calls:
  "calls (snd (reconcile sample_api sample_client ''/home/u'' sample_albums sample_images
                 (sample_world 10 [] Map.empty))) =
   [CreateAlbum ''lnxpcs'' ''hidden'' ''Album of images from https://github.com/jstpcs/lnxpcs/tree/master'',
    GetAlbum ''a2'',
    UploadFromPath ''/home/u/lnxpcs/a.png'' ''lnxpcs/a.png''
      ''A mirror of https://github.com/jstpcs/lnxpcs/tree/master/a.png'' ''dh2'',
    UploadFromPath ''/home/u/lnxpcs/foo/c.png'' ''lnxpcs/foo/c.png''
      ''A mirror of https://github.com/jstpcs/lnxpcs/tree/master/foo/c.png'' ''dh1'']"
  by (simp only: reconcile_calls sample_run_calls)

text \<open>
  C1. In a run of the reconciliation loop that completes, the upload calls issued are, group
  by group and file by file in order, exactly one call for every file whose relative path
  (the group's title joined with the file name) is the title of no image in the album
  resolved for the group, and none for a file whose relative path is such a title. The
  call has the relative path as its title and the deletion handle of that album. The
  resolved album of a group is the entry of its title in the final album mapping, which
  extends the pre-fetched one.
\<close>

theorem reconcile_uploads_missing_files:
  assumes "fst (reconcile api client parent m images s) = Inr m'"
  shows "filter is_upload (new_calls s (snd (reconcile api client parent m images s))) =
           expected_uploads parent m' images \<and> m \<subseteq>\<^sub>m m'"
proof -
  obtain s' where "reconcile api client parent m images s = (Inr m', s')"
    using assms by (cases "reconcile api client parent m images s") simp
  then have run: "handle_groups api client parent m images s = (Inr m', s')"
    by (simp only: reconcile_Inr)
  from handle_groups_uploads[OF run] obtain new where
    n: "m \<subseteq>\<^sub>m m'" "calls s' = calls s @ new" "filter is_upload new = expected_uploads parent m' images"
    by (elim conjE exE)
  have "snd (reconcile api client parent m images s) = s'"
    using \<open>reconcile api client parent m images s = (Inr m', s')\<close> by simp
  then show ?thesis using n by (simp add: new_calls_append)
qed

theorem reconcile_uploads_missing_files_witness:
  "fst (reconcile sample_api sample_client ''/home/u'' sample_albums sample_images
          (sample_world 10 [] Map.empty)) = Inr (sample_albums(Some ''lnxpcs'' \<mapsto> fresh_album ''a2'')) \<and>
   filter is_upload (calls (snd (reconcile sample_api sample_client ''/home/u'' sample_albums
          sample_images (sample_world 10 [] Map.empty)))) =
   [UploadFromPath ''/home/u/lnxpcs/a.png'' ''lnxpcs/a.png''
      ''A mirror of https://github.com/jstpcs/lnxpcs/tree/master/a.png'' ''dh2'',
    UploadFromPath ''/home/u/lnxpcs/foo/c.png'' ''lnxpcs/foo/c.png''
      ''A mirror of https://github.com/jstpcs/lnxpcs/tree/master/foo/c.png'' ''dh1'']"
  using reconcile_uploads_missing_files[OF sample_reconcile_fst] sample_reconcile_fst
  by (simp add: expected_uploads_def sample_images_def sample_albums_def missing_pngs_def has_title_def
      upload_call_def album_git_url_def sample_album_def fresh_album_def path_join_def startswith_def
      endswith_def ROOT_URL_def REPO_DIR_def)

lemma reconcile_any:
  "\<exists>ts. filter is_create (new_calls s (snd (reconcile api client parent m images s))) = map create_call ts \<and>
     distinct ts \<and>
     set ts \<subseteq> {t \<in> fst ` set images. m (Some t) = None} \<and>
     ((\<exists>m'. fst (reconcile api client parent m images s) = Inr m') \<longrightarrow>
        set ts = {t \<in> fst ` set images. m (Some t) = None}) \<and>
     (\<forall>c \<in> set (new_calls s (snd (reconcile api client parent m images s))). is_upload c \<longrightarrow>
        (\<exists>t pngs png a. (t, pngs) \<in> set images \<and> png \<in> set pngs \<and> c = upload_call parent t a png))"
proof -
  obtain res s' where run: "handle_groups api client parent m images s = (res, s')"
    by (cases "handle_groups api client parent m images s")
  from handle_groups_any[OF run] obtain new ts where h:
    "calls s' = calls s @ new" "filter is_create new = map create_call ts" "distinct ts"
    "set ts \<subseteq> {t \<in> fst ` set images. m (Some t) = None}"
    "(\<exists>m'. res = Inr m') \<longrightarrow> set ts = {t \<in> fst ` set images. m (Some t) = None}"
    "\<forall>c \<in> set new. is_upload c \<longrightarrow>
        (\<exists>t pngs png a. (t, pngs) \<in> set images \<and> png \<in> set pngs \<and> c = upload_call parent t a png)"
    by (elim exE conjE)
  have n: "new_calls s (snd (reconcile api client parent m images s)) = new"
    using h(1) run by (simp add: new_calls_def reconcile_calls)
  have r: "(\<exists>m'. fst (reconcile api client parent m images s) = Inr m') \<longleftrightarrow> (\<exists>m'. res = Inr m')"
    using run by (simp add: reconcile_fst_Inr)
  show ?thesis
    unfolding n r
    apply (rule exI[of _ ts], intro conjI)
    apply (rule h(2), rule h(3), rule h(4), rule h(5), rule h(6))
    done
qed




text \<open>
  C4. For a title that is no key of the album mapping, \<open>get_album\<close> issues one creation call,
  with privacy \<open>hidden\<close> and a description that ends with the source URL, then fetches the
  created album by the returned id and stores it under the title, so that a later
  \<open>get_album\<close> for the same title returns it without any call. In a run of the
  reconciliation loop, however it ends, the creation calls are for distinct titles, each a
  group title missing from the starting mapping and each with the privacy and description
  above; in a run that completes there is exactly one for each such title.
\<close>

theorem missing_album_created_once:
  assumes "m (Some title) = None"
    and "api_create_album api client title ''hidden'' (''Album of images from '' @ url) (remote s)
           = (Inr new_id, r1)"
    and "api_get_album api client new_id r1 = (Inr a, r2)"
  shows "get_album api client m title url s =
           (Inr (a, m(Some title \<mapsto> a)),
            s\<lparr>remote := r2,
              calls := calls s @ [CreateAlbum title ''hidden'' (''Album of images from '' @ url),
                                  GetAlbum new_id]\<rparr>) \<and>
         get_album api client (m(Some title \<mapsto> a)) title url' s2 = (Inr (a, m(Some title \<mapsto> a)), s2) \<and>
         (\<exists>ts. filter is_create (new_calls s0 (snd (reconcile api client parent m images s0))) =
                 map (\<lambda>t. CreateAlbum t ''hidden''
                        (''Album of images from '' @ ROOT_URL @
                           str_replace REPO_DIR ''lnxpcs/tree/master'' t)) ts \<and>
               distinct ts \<and>
               set ts \<subseteq> {t \<in> fst ` set images. m (Some t) = None} \<and>
               ((\<exists>m'. fst (reconcile api client parent m images s0) = Inr m') \<longrightarrow>
                  set ts = {t \<in> fst ` set images. m (Some t) = None}))"
proof (intro conjI)
  show "get_album api client m title url s =
           (Inr (a, m(Some title \<mapsto> a)),
            s\<lparr>remote := r2,
              calls := calls s @ [CreateAlbum title ''hidden'' (''Album of images from '' @ url),
                                  GetAlbum new_id]\<rparr>)"
    using assms
    by (simp add: get_album_def bind_prog_def client_create_album_def client_get_album_def
        remote_call_def return_def)
  show "get_album api client (m(Some title \<mapsto> a)) title url' s2 = (Inr (a, m(Some title \<mapsto> a)), s2)"
    by (rule get_album_present) simp
  from reconcile_any[of s0 api client parent m images] obtain ts where
    ts: "filter is_create (new_calls s0 (snd (reconcile api client parent m images s0))) = map create_call ts"
      "distinct ts" "set ts \<subseteq> {t \<in> fst ` set images. m (Some t) = None}"
      "(\<exists>m'. fst (reconcile api client parent m images s0) = Inr m') \<longrightarrow>
        set ts = {t \<in> fst ` set images. m (Some t) = None}"
    by (elim exE conjE)
  have c: "create_call = (\<lambda>t. CreateAlbum t ''hidden''
                        (''Album of images from '' @ ROOT_URL @
                           str_replace REPO_DIR ''lnxpcs/tree/master'' t))"
    by (rule ext) (simp add: create_call_def album_git_url_def)
  show "\<exists>ts. filter is_create (new_calls s0 (snd (reconcile api client parent m images s0))) =
                 map (\<lambda>t. CreateAlbum t ''hidden''
                        (''Album of images from '' @ ROOT_URL @
                           str_replace REPO_DIR ''lnxpcs/tree/master'' t)) ts \<and>
               distinct ts \<and>
               set ts \<subseteq> {t \<in> fst ` set images. m (Some t) = None} \<and>
               ((\<exists>m'. fst (reconcile api client parent m images s0) = Inr m') \<longrightarrow>
                  set ts = {t \<in> fst ` set images. m (Some t) = None})"
    apply (rule exI[of _ ts], intro conjI)
    using ts(1) unfolding c apply assumption
    apply (rule ts(2), rule ts(3), rule ts(4))
    done
qed

theorem missing_album_created_once_witness:
  "sample_albums (Some ''lnxpcs'') = None \<and>
   api_create_album sample_api sample_client ''lnxpcs'' ''hidden'' (''Album of images from '' @ ''u'')
     (remote (sample_world 10 [] Map.empty)) = (Inr ''a2'', 9) \<and>
   api_get_album sample_api sample_client ''a2'' 9 = (Inr (fresh_album ''a2''), 8) \<and>
   get_album sample_api sample_client sample_albums ''lnxpcs'' ''u'' (sample_world 10 [] Map.empty) =
     (Inr (fresh_album ''a2'', sample_albums(Some ''lnxpcs'' \<mapsto> fresh_album ''a2'')),
      (sample_world 10 [] Map.empty)\<lparr>remote := 8,
         calls := [CreateAlbum ''lnxpcs'' ''hidden'' ''Album of images from u'', GetAlbum ''a2'']\<rparr>) \<and>
   (\<exists>ts. filter is_create (calls (snd (reconcile sample_api sample_client ''/home/u'' sample_albums
                 sample_images (sample_world 10 [] Map.empty)))) =
          map (\<lambda>t. CreateAlbum t ''hidden''
                 (''Album of images from '' @ ROOT_URL @ str_replace REPO_DIR ''lnxpcs/tree/master'' t)) ts \<and>
        distinct ts \<and>
        set ts = {t \<in> fst ` set sample_images. sample_albums (Some t) = None})"
proof -
  have h1: "sample_albums (Some ''lnxpcs'') = None" by (simp add: sample_albums_def)
  have h2: "api_create_album sample_api sample_client ''lnxpcs'' ''hidden'' (''Album of images from '' @ ''u'')
     (remote (sample_world 10 [] Map.empty)) = (Inr ''a2'', 9)"
    by (simp add: sample_api_def sample_world_def)
  have h3: "api_get_album sample_api sample_client ''a2'' 9 = (Inr (fresh_album ''a2''), 8)"
    by (simp add: sample_api_def)
  note t = missing_album_created_once[where m=sample_albums and title="''lnxpcs''" and api=sample_api
      and client=sample_client and url="''u''" and s="sample_world 10 [] Map.empty" and new_id="''a2''"
      and ?r1.0=9 and a="fresh_album ''a2''" and ?r2.0=8 and ?s0.0="sample_world 10 [] Map.empty"
      and parent="''/home/u''" and images=sample_images and url'="''u''"
      and ?s2.0="sample_world 10 [] Map.empty", OF h1 h2 h3]
  from t[THEN conjunct1] have g: "get_album sample_api sample_client sample_albums ''lnxpcs'' ''u'' (sample_world 10 [] Map.empty) =
     (Inr (fresh_album ''a2'', sample_albums(Some ''lnxpcs'' \<mapsto> fresh_album ''a2'')),
      (sample_world 10 [] Map.empty)\<lparr>remote := 8,
         calls := [CreateAlbum ''lnxpcs'' ''hidden'' ''Album of images from u'', GetAlbum ''a2'']\<rparr>)"
    by (simp add: sample_world_def)
  let ?R = "reconcile sample_api sample_client ''/home/u'' sample_albums sample_images
              (sample_world 10 [] Map.empty)"
  let ?mk = "\<lambda>t. CreateAlbum t ''hidden''
                 (''Album of images from '' @ ROOT_URL @ str_replace REPO_DIR ''lnxpcs/tree/master'' t)"
  from t[THEN conjunct2, THEN conjunct2] obtain ts where ts:
    "filter is_create (new_calls (sample_world 10 [] Map.empty) (snd ?R)) = map ?mk ts"
    "distinct ts"
    "(\<exists>m'. fst ?R = Inr m') \<longrightarrow> set ts = {t \<in> fst ` set sample_images. sample_albums (Some t) = None}"
    by (elim exE conjE)
  have "\<exists>m'. fst ?R = Inr m'" by (rule exI, rule sample_reconcile_fst)
  with ts(3) have eq: "set ts = {t \<in> fst ` set sample_images. sample_albums (Some t) = None}"
    by (rule mp)
  have f: "filter is_create (calls (snd ?R)) = map ?mk ts"
    using ts(1) by (simp only: new_calls_sample)
  have e: "\<exists>ts. filter is_create (calls (snd ?R)) = map ?mk ts \<and> distinct ts \<and>
        set ts = {t \<in> fst ` set sample_images. sample_albums (Some t) = None}"
    by (rule exI[of _ ts], intro conjI, rule f, rule ts(2), rule eq)
  show ?thesis by (intro conjI, rule h1, rule h2, rule h3, rule g, rule e)
qed

text \<open>
  C6. When the reconciliation loop ends with a rate-limit error, the \<open>try\<close> statement
  around it prints one line with the remaining credits and raises the same error again:
  the run ends with that error, and apart from the printed line the world is as the loop
  left it, so no call is repeated and nothing created so far is undone.
\<close>

theorem rate_limit_reported_and_reraised:
  assumes "fst (handle_groups api client parent m images s) = Inl (ImgurClientRateLimitError rle)"
  shows "reconcile api client parent m images s =
           (Inl (ImgurClientRateLimitError rle),
            (snd (handle_groups api client parent m images s))
              \<lparr>stdout := stdout (snd (handle_groups api client parent m images s)) @
                 [''Passed limit '' @
                  api_credits api (remote (snd (handle_groups api client parent m images s)))]\<rparr>) \<and>
         fst (bind_prog (reconcile api client parent m images) (\<lambda>_. return ()) s) =
           Inl (ImgurClientRateLimitError rle) \<and>
         calls (snd (bind_prog (reconcile api client parent m images) (\<lambda>_. return ()) s)) =
           calls (snd (handle_groups api client parent m images s)) \<and>
         remote (snd (bind_prog (reconcile api client parent m images) (\<lambda>_. return ()) s)) =
           remote (snd (handle_groups api client parent m images s))"
proof -
  obtain s1 where run: "handle_groups api client parent m images s = (Inl (ImgurClientRateLimitError rle), s1)"
    using assms by (cases "handle_groups api client parent m images s") simp
  note r = reconcile_rate_limit[OF run]
  show ?thesis
    using run by (simp add: r bind_prog_def)
qed

theorem rate_limit_reported_and_reraised_witness:
  "fst (handle_groups sample_api sample_client ''/home/u'' sample_albums sample_images
          (sample_world 3 [] Map.empty)) = Inl (ImgurClientRateLimitError ''Rate-limit exceeded!'') \<and>
   fst (reconcile sample_api sample_client ''/home/u'' sample_albums sample_images
          (sample_world 3 [] Map.empty)) = Inl (ImgurClientRateLimitError ''Rate-limit exceeded!'') \<and>
   stdout (snd (reconcile sample_api sample_client ''/home/u'' sample_albums sample_images
          (sample_world 3 [] Map.empty))) =
     stdout (snd (handle_groups sample_api sample_client ''/home/u'' sample_albums sample_images
          (sample_world 3 [] Map.empty))) @
     [''Passed limit '' @ api_credits sample_api
        (remote (snd (handle_groups sample_api sample_client ''/home/u'' sample_albums sample_images
          (sample_world 3 [] Map.empty))))]"
proof -
  have h: "fst (handle_groups sample_api sample_client ''/home/u'' sample_albums sample_images
          (sample_world 3 [] Map.empty)) = Inl (ImgurClientRateLimitError ''Rate-limit exceeded!'')"
    using sample_run_limited by (simp add: rate_limited_def)
  from rate_limit_reported_and_reraised[OF h] h show ?thesis by simp
qed

text \<open>
  C7. In a run of the reconciliation loop, however it ends, every album-creation call is for
  a group title and carries the album source URL in its description: the root URL followed
  by the title with every occurrence of the tracked directory name replaced by
  \<^verbatim>\<open>lnxpcs/tree/master\<close>. Every upload call is for a file of a group and carries the image
  source URL: the album source URL of its group, a separator and the file name.
\<close>

theorem source_urls_by_substitution:
  "\<forall>c \<in> set (new_calls s (snd (reconcile api client parent m images s))).
     (is_create c \<longrightarrow>
        (\<exists>t \<in> fst ` set images.
           c = CreateAlbum t ''hidden''
                 (''Album of images from '' @ ROOT_URL @ str_replace REPO_DIR ''lnxpcs/tree/master'' t))) \<and>
     (is_upload c \<longrightarrow>
        (\<exists>(t, pngs) \<in> set images. \<exists>png \<in> set pngs. \<exists>a::album.
           c = UploadFromPath (path_join (path_join parent t) png) (path_join t png)
                 (''A mirror of '' @ (ROOT_URL @ str_replace REPO_DIR ''lnxpcs/tree/master'' t) @ ''/'' @ png)
                 (album_deletehash a)))"
proof (intro ballI conjI impI)
  let ?new = "new_calls s (snd (reconcile api client parent m images s))"
  from reconcile_any[of s api client parent m images] obtain ts where
    ts: "filter is_create ?new = map create_call ts"
      "set ts \<subseteq> {t \<in> fst ` set images. m (Some t) = None}"
      "\<forall>c \<in> set ?new. is_upload c \<longrightarrow>
        (\<exists>t pngs png a. (t, pngs) \<in> set images \<and> png \<in> set pngs \<and> c = upload_call parent t a png)"
    by (elim exE conjE)
  fix c assume c: "c \<in> set ?new"
  {
    assume "is_create c"
    with c have "c \<in> set (filter is_create ?new)" by simp
    then have "c \<in> create_call ` set ts" unfolding ts(1) by simp
    then obtain t where t: "t \<in> set ts" "c = create_call t" by auto
    from t(1) ts(2) have "t \<in> fst ` set images" by auto
    then show "\<exists>t \<in> fst ` set images.
           c = CreateAlbum t ''hidden''
                 (''Album of images from '' @ ROOT_URL @ str_replace REPO_DIR ''lnxpcs/tree/master'' t)"
      using t(2) by (intro bexI[of _ t]) (simp_all add: create_call_def album_git_url_def)
  }
  {
    assume "is_upload c"
    with ts(3) c have "\<exists>t pngs png a. (t, pngs) \<in> set images \<and> png \<in> set pngs \<and> c = upload_call parent t a png"
      by simp
    then obtain t pngs png a where
      u: "(t, pngs) \<in> set images" "png \<in> set pngs" "c = upload_call parent t a png"
      by (elim exE conjE)
    show "\<exists>(t, pngs) \<in> set images. \<exists>png \<in> set pngs. \<exists>a::album.
           c = UploadFromPath (path_join (path_join parent t) png) (path_join t png)
                 (''A mirror of '' @ (ROOT_URL @ str_replace REPO_DIR ''lnxpcs/tree/master'' t) @ ''/'' @ png)
                 (album_deletehash a)"
    proof (rule bexI[of _ "(t, pngs)"])
      have e: "c = UploadFromPath (path_join (path_join parent t) png) (path_join t png)
                 (''A mirror of '' @ (ROOT_URL @ str_replace REPO_DIR ''lnxpcs/tree/master'' t) @ ''/'' @ png)
                 (album_deletehash a)"
        using u(3) by (simp add: upload_call_def album_git_url_def)
      show "case (t, pngs) of (t, pngs) \<Rightarrow> \<exists>png \<in> set pngs. \<exists>a::album.
           c = UploadFromPath (path_join (path_join parent t) png) (path_join t png)
                 (''A mirror of '' @ (ROOT_URL @ str_replace REPO_DIR ''lnxpcs/tree/master'' t) @ ''/'' @ png)
                 (album_deletehash a)"
        unfolding prod.case
      proof (rule bexI[of _ png])
        show "\<exists>a::album. c = UploadFromPath (path_join (path_join parent t) png) (path_join t png)
                 (''A mirror of '' @ (ROOT_URL @ str_replace REPO_DIR ''lnxpcs/tree/master'' t) @ ''/'' @ png)
                 (album_deletehash a)"
          using e by (rule exI[of _ a])
      qed (rule u(2))
    qed (rule u(1))
  }
qed

theorem source_urls_by_substitution_witness:
  "UploadFromPath ''/home/u/lnxpcs/foo/c.png'' ''lnxpcs/foo/c.png''
      ''A mirror of https://github.com/jstpcs/lnxpcs/tree/master/foo/c.png'' ''dh1''
     \<in> set (calls (snd (reconcile sample_api sample_client ''/home/u'' sample_albums sample_images
                        (sample_world 10 [] Map.empty)))) \<and>
   is_upload (UploadFromPath ''/home/u/lnxpcs/foo/c.png'' ''lnxpcs/foo/c.png''
      ''A mirror of https://github.com/jstpcs/lnxpcs/tree/master/foo/c.png'' ''dh1'') \<and>
   (\<exists>(t, pngs) \<in> set sample_images. \<exists>png \<in> set pngs. \<exists>a::album.
      UploadFromPath ''/home/u/lnxpcs/foo/c.png'' ''lnxpcs/foo/c.png''
        ''A mirror of https://github.com/jstpcs/lnxpcs/tree/master/foo/c.png'' ''dh1'' =
      UploadFromPath (path_join (path_join ''/home/u'' t) png) (path_join t png)
        (''A mirror of '' @ (ROOT_URL @ str_replace REPO_DIR ''lnxpcs/tree/master'' t) @ ''/'' @ png)
        (album_deletehash a)) \<and>
   CreateAlbum ''lnxpcs'' ''hidden'' ''Album of images from https://github.com/jstpcs/lnxpcs/tree/master''
     \<in> set (calls (snd (reconcile sample_api sample_client ''/home/u'' sample_albums sample_images
                        (sample_world 10 [] Map.empty)))) \<and>
   is_create (CreateAlbum ''lnxpcs'' ''hidden''
                ''Album of images from https://github.com/jstpcs/lnxpcs/tree/master'') \<and>
   (\<exists>t \<in> fst ` set sample_images.
      CreateAlbum ''lnxpcs'' ''hidden'' ''Album of images from https://github.com/jstpcs/lnxpcs/tree/master'' =
      CreateAlbum t ''hidden''
        (''Album of images from '' @ ROOT_URL @ str_replace REPO_DIR ''lnxpcs/tree/master'' t))"
proof -
  let ?w = "sample_world 10 [] Map.empty"
  let ?R = "reconcile sample_api sample_client ''/home/u'' sample_albums sample_images ?w"
  let ?u = "UploadFromPath ''/home/u/lnxpcs/foo/c.png'' ''lnxpcs/foo/c.png''
      ''A mirror of https://github.com/jstpcs/lnxpcs/tree/master/foo/c.png'' ''dh1''"
  let ?c = "CreateAlbum ''lnxpcs'' ''hidden''
      ''Album of images from https://github.com/jstpcs/lnxpcs/tree/master''"
  have mu: "?u \<in> set (new_calls ?w (snd ?R))" by (simp add: sample_reconcile_calls)
  have mc: "?c \<in> set (new_calls ?w (snd ?R))" by (simp add: sample_reconcile_calls)
  have iu: "is_upload ?u" by (simp add: is_upload_def)
  have ic: "is_create ?c" by (simp add: is_create_def)
  note tu = source_urls_by_substitution[THEN bspec, OF mu, THEN conjunct2, THEN mp, OF iu]
  note tc = source_urls_by_substitution[THEN bspec, OF mc, THEN conjunct1, THEN mp, OF ic]
  have mu': "?u \<in> set (calls (snd ?R))" using mu by (simp only: new_calls_sample)
  have mc': "?c \<in> set (calls (snd ?R))" using mc by (simp only: new_calls_sample)
  show ?thesis
    by (intro conjI, rule mu', rule iu, rule tu, rule mc', rule ic, rule tc)
qed
















end
